theory Spec2Isabelle
  imports Main "HOL-Library.Word" "HOL-Library.Monad_Syntax"
begin

unbundle bit_operations_syntax

section \<open>The SSD1306 OLED driver of \<open>oled96.c\<close>\<close>

text \<open>
  The driver keeps four file-scope variables (\<open>ucFont\<close>, \<open>iScreenOffset\<close>,
  \<open>ucScreen\<close>, \<open>file_i2c\<close>) and talks to the display through \<open>write()\<close> on the
  I2C file handle. The embedding passes the variables around as a record and logs
  every \<open>write()\<close> call, with its buffer, in the field \<open>bus\<close>.

  \<^item> \<open>unsigned char\<close> is \<open>8 word\<close>.
  \<^item> \<open>int\<close> is a HOL integer kept in the 32-bit two's complement range: the
    result of every \<open>int\<close> addition, subtraction and multiplication goes through
    \<open>wrap32\<close>. (C leaves signed overflow undefined; the wrap-around is what the
    usual targets of this driver do. The theorems that depend on a sum or product
    say in their hypotheses that it stays in the range.) \<open>>>\<close> on a negative
    \<open>int\<close> is the arithmetic shift, as the compilers for these targets have it.
  \<^item> An array is a list. Every access is checked against the length of the list;
    an access outside the array makes the operation return \<open>None\<close>. So \<open>None\<close> is
    never a return value of the C function: it says that the call has left the
    behaviour C defines.
\<close>

type_synonym u8 = "8 word"

subsection \<open>C integers\<close>

definition wrap32 :: "int \<Rightarrow> int" where
  "wrap32 v = signed_take_bit 31 v"

definition add32 :: "int \<Rightarrow> int \<Rightarrow> int" where
  "add32 a b = wrap32 (a + b)"

definition sub32 :: "int \<Rightarrow> int \<Rightarrow> int" where
  "sub32 a b = wrap32 (a - b)"

definition mul32 :: "int \<Rightarrow> int \<Rightarrow> int" where
  "mul32 a b = wrap32 (a * b)"

subsection \<open>Checked array accesses\<close>

text \<open>\<open>a[k]\<close> as an rvalue.\<close>

definition rd :: "u8 list \<Rightarrow> nat \<Rightarrow> u8 option" where
  "rd a k = (if k < length a then Some (a ! k) else None)"

text \<open>\<open>a[k] = v\<close>.\<close>

definition wr :: "u8 list \<Rightarrow> nat \<Rightarrow> u8 \<Rightarrow> u8 list option" where
  "wr a k v = (if k < length a then Some (a[k := v]) else None)"

text \<open>The \<open>n\<close> bytes that a \<open>memcpy(_, &a[k], n)\<close> reads.\<close>

definition rd_block :: "u8 list \<Rightarrow> nat \<Rightarrow> nat \<Rightarrow> u8 list option" where
  "rd_block a k n = (if k + n \<le> length a then Some (take n (drop k a)) else None)"

text \<open>\<open>memcpy(&dst[k], src, length src)\<close>.\<close>

definition memcpy_to :: "u8 list \<Rightarrow> nat \<Rightarrow> u8 list \<Rightarrow> u8 list option" where
  "memcpy_to dst k src =
     (if k + length src \<le> length dst
      then Some (take k dst @ src @ drop (k + length src) dst) else None)"

subsection \<open>Counted loops\<close>

text \<open>
  \<open>for (k = 0; k < n; k++) body\<close> is \<open>for_loop [0..<n] body\<close>: the body runs once
  for each counter value, in order, on the state the previous pass left; the first
  pass that leaves defined behaviour ends the loop.
\<close>

fun for_loop :: "nat list \<Rightarrow> (nat \<Rightarrow> 'a \<Rightarrow> 'a option) \<Rightarrow> 'a \<Rightarrow> 'a option" where
  "for_loop [] body s = Some s"
| "for_loop (k # ks) body s =
     (case body k s of None \<Rightarrow> None | Some s' \<Rightarrow> for_loop ks body s')"

subsection \<open>\<open>RotateFont90\<close>\<close>

text \<open>
  One pass of either innermost loop does, for the byte \<open>b\<close> it reads,
  \<open>c >>= 1; if (b & ucMask) c |= 0x80;\<close>.
\<close>

definition shift_in :: "u8 \<Rightarrow> u8 \<Rightarrow> u8 \<Rightarrow> u8" where
  "shift_in b ucMask c =
     (let c' = drop_bit 1 c in if b AND ucMask \<noteq> 0 then c' OR 0x80 else c')"

text \<open>The 8x8 font. \<open>s\<close> is the offset of the pointer \<open>s\<close> into \<open>ucFont\<close>.\<close>

definition small_x_body :: "u8 list \<Rightarrow> nat \<Rightarrow> u8 \<Rightarrow> nat \<Rightarrow> u8 \<Rightarrow> u8 option" where
  "small_x_body font s ucMask x c =
     do { b \<leftarrow> rd font (s + x); Some (shift_in b ucMask c) }"

definition small_y_body ::
  "u8 list \<Rightarrow> nat \<Rightarrow> nat \<Rightarrow> u8 \<times> u8 list \<Rightarrow> (u8 \<times> u8 list) option" where
  "small_y_body font s y = (\<lambda>(ucMask, ucTemp).
     do { c \<leftarrow> for_loop [0..<8] (small_x_body font s ucMask) 0;
          t \<leftarrow> wr ucTemp (7 - y) c;
          Some (push_bit 1 ucMask, t) })"

definition rotate_small_glyph ::
  "nat \<Rightarrow> u8 list \<times> u8 list \<Rightarrow> (u8 list \<times> u8 list) option" where
  "rotate_small_glyph i = (\<lambda>(font, ucTemp).
     do { (m, t) \<leftarrow> for_loop [0..<8] (small_y_body font (i * 8)) (0x1, ucTemp);
          blk \<leftarrow> rd_block t 0 8;
          f \<leftarrow> memcpy_to font (i * 8) blk;
          Some (f, t) })"

text \<open>
  The 16x32 font. \<open>s\<close> is the offset of \<open>s\<close> into \<open>ucFont\<close>, \<open>d\<close> the offset of
  \<open>d\<close> into \<open>ucTemp\<close>.
\<close>

definition large_x_body ::
  "u8 list \<Rightarrow> nat \<Rightarrow> u8 \<Rightarrow> nat \<Rightarrow> u8 \<times> u8 \<Rightarrow> (u8 \<times> u8) option" where
  "large_x_body font s ucMask x = (\<lambda>(c, c2).
     do { b \<leftarrow> rd font (s + x * 2);
          b2 \<leftarrow> rd font (s + (x * 2 + 1));
          Some (shift_in b ucMask c, shift_in b2 ucMask c2) })"

definition large_y_body ::
  "u8 list \<Rightarrow> nat \<Rightarrow> nat \<Rightarrow> nat \<Rightarrow> u8 \<times> u8 list \<Rightarrow> (u8 \<times> u8 list) option" where
  "large_y_body font s d y = (\<lambda>(ucMask, ucTemp).
     do { (c, c2) \<leftarrow> for_loop [0..<8] (large_x_body font s ucMask) (0, 0);
          t \<leftarrow> wr ucTemp (d + (7 - y)) c;
          t2 \<leftarrow> wr t (d + (15 - y)) c2;
          Some (push_bit 1 ucMask, t2) })"

definition large_band :: "u8 list \<Rightarrow> nat \<Rightarrow> nat \<Rightarrow> u8 list \<Rightarrow> u8 list option" where
  "large_band font i j ucTemp =
     do { (m, t) \<leftarrow> for_loop [0..<8]
            (large_y_body font (9728 + 12 + i * 64 + j * 16) (j * 16)) (0x1, ucTemp);
          Some t }"

definition rotate_large_glyph ::
  "nat \<Rightarrow> u8 list \<times> u8 list \<Rightarrow> (u8 list \<times> u8 list) option" where
  "rotate_large_glyph i = (\<lambda>(font, ucTemp).
     do { t \<leftarrow> for_loop [0..<4] (large_band font i) ucTemp;
          blk \<leftarrow> rd_block t 0 64;
          f \<leftarrow> memcpy_to font (9728 + i * 64) blk;
          Some (f, t) })"

text \<open>
  \<open>ucTemp\<close> is a local array of 64 bytes that the function does not initialise: its
  first contents are an argument of the model.
\<close>

definition RotateFont90 :: "u8 list \<Rightarrow> u8 list \<Rightarrow> u8 list option" where
  "RotateFont90 font ucTemp =
     do { (f, t) \<leftarrow> for_loop [0..<256] rotate_small_glyph (font, ucTemp);
          (f2, t2) \<leftarrow> for_loop [0..<128] rotate_large_glyph (f, t);
          Some f2 }"

subsection \<open>The driver state and the bus\<close>

text \<open>
  \<open>bus\<close> is the log of the \<open>write()\<close> calls on the I2C handle: one byte list for
  each call, oldest first.
\<close>

record oled =
  ucFont :: "u8 list"
  iScreenOffset :: int
  ucScreen :: "u8 list"
  file_i2c :: int
  bus :: "u8 list list"

text \<open>
  What the surroundings decide at \<open>oledInit\<close>: the value \<open>open()\<close> returns, the
  value \<open>ioctl()\<close> returns for a handle and an address, and the bytes that lie in
  \<open>RotateFont90\<close>'s uninitialised \<open>ucTemp\<close>.
\<close>

record env =
  open_result :: int
  ioctl_result :: "int \<Rightarrow> int \<Rightarrow> int"
  stack_bytes :: "u8 list"

definition write_i2c :: "u8 list \<Rightarrow> oled \<Rightarrow> oled" where
  "write_i2c buf st = st\<lparr>bus := bus st @ [buf]\<rparr>"

definition oledWriteCommand :: "u8 \<Rightarrow> oled \<Rightarrow> oled" where
  "oledWriteCommand c st = write_i2c [0x00, c] st"

text \<open>
  The \<open>int\<close> arguments of \<open>oledWriteCommand\<close> are converted to \<open>unsigned char\<close>:
  \<open>word_of_int\<close> keeps the low eight bits. \<open>x >> 4\<close> is \<open>drop_bit 4 x\<close>, the
  arithmetic shift.
\<close>

definition oledSetPosition :: "int \<Rightarrow> int \<Rightarrow> oled \<Rightarrow> oled" where
  "oledSetPosition x y st =
     (let st1 = oledWriteCommand (word_of_int (0xb0 OR y)) st;
          st2 = oledWriteCommand (word_of_int (0x00 OR (x AND 0xf))) st1;
          st3 = oledWriteCommand (word_of_int (0x10 OR (drop_bit 4 x AND 0xf))) st2
      in st3\<lparr>iScreenOffset := add32 (mul32 y 128) x\<rparr>)"

text \<open>
  \<open>oledWriteDataBlock\<close> gets the \<open>iLen\<close> bytes at \<open>ucBuf\<close> as a list. \<open>ucTemp\<close>
  has 129 bytes, so more than 128 bytes of data overrun it.
\<close>

definition oledWriteDataBlock :: "u8 list \<Rightarrow> oled \<Rightarrow> oled option" where
  "oledWriteDataBlock ucBuf st =
     (if 128 < length ucBuf then None
      else let st1 = write_i2c (0x40 # ucBuf) st in
        if iScreenOffset st1 < 0 then None
        else do {
          scr \<leftarrow> memcpy_to (ucScreen st1) (nat (iScreenOffset st1)) ucBuf;
          Some (st1\<lparr>ucScreen := scr,
                    iScreenOffset := add32 (iScreenOffset st1) (int (length ucBuf))\<rparr>) })"

text \<open>
  \<open>y >> 3\<close> is \<open>drop_bit 3 y\<close> and \<open>y & 7\<close> is \<open>y AND 7\<close>, both on two's
  complement integers. \<open>uc &= ~(0x1 << (y & 7))\<close> and \<open>uc |= (0x1 << (y & 7))\<close> are
  computed in \<open>int\<close> and stored back into an \<open>unsigned char\<close>: the shift count is at
  most 7, so the eight low bits are those of the same operations on bytes.
\<close>

definition oledSetPixel :: "int \<Rightarrow> int \<Rightarrow> u8 \<Rightarrow> oled \<Rightarrow> (int \<times> oled) option" where
  "oledSetPixel x y ucColor st =
     (if file_i2c st = 0 then Some (- 1, st)
      else let i = add32 (mul32 (drop_bit 3 y) 128) x in
        if i < 0 \<or> i > 1023 then Some (- 1, st)
        else do {
          ucOld \<leftarrow> rd (ucScreen st) (nat i);
          let uc = ucOld AND NOT (push_bit (nat (y AND 7)) 0x1);
          let uc = (if ucColor \<noteq> 0 then uc OR push_bit (nat (y AND 7)) 0x1 else uc);
          if uc \<noteq> ucOld
          then do {
            st' \<leftarrow> oledWriteDataBlock [uc] (oledSetPosition x (drop_bit 3 y) st);
            Some (0, st') }
          else Some (0, st) })"

text \<open>
  \<open>szMsg\<close> is the list of the characters before the terminating NUL. \<open>szMsg[i]\<close>
  for \<open>i\<close> equal to the length reads the NUL, beyond that it leaves the string.
\<close>

definition msg_at :: "string \<Rightarrow> nat \<Rightarrow> u8 option" where
  "msg_at szMsg i =
     (if i < length szMsg then Some (of_char (szMsg ! i))
      else if i = length szMsg then Some 0 else None)"

definition large_glyph_body :: "int \<Rightarrow> int \<Rightarrow> string \<Rightarrow> nat \<Rightarrow> oled \<Rightarrow> oled option" where
  "large_glyph_body x y szMsg i st =
     do { ch \<leftarrow> msg_at szMsg i;
          let s = 9728 + unat ch * 64;
          let col = add32 x (mul32 (int i) 16);
          b0 \<leftarrow> rd_block (ucFont st) s 16;
          st1 \<leftarrow> oledWriteDataBlock b0 (oledSetPosition col y st);
          b1 \<leftarrow> rd_block (ucFont st1) (s + 16) 16;
          st2 \<leftarrow> oledWriteDataBlock b1 (oledSetPosition col (add32 y 1) st1);
          b2 \<leftarrow> rd_block (ucFont st2) (s + 32) 16;
          oledWriteDataBlock b2 (oledSetPosition col (add32 y 2) st2) }"

definition small_glyph_body :: "string \<Rightarrow> nat \<Rightarrow> oled \<Rightarrow> oled option" where
  "small_glyph_body szMsg i st =
     do { ch \<leftarrow> msg_at szMsg i;
          b \<leftarrow> rd_block (ucFont st) (unat ch * 8) 8;
          oledWriteDataBlock b st }"

definition oledWriteString ::
  "int \<Rightarrow> int \<Rightarrow> string \<Rightarrow> int \<Rightarrow> oled \<Rightarrow> (int \<times> oled) option" where
  "oledWriteString x y szMsg bLarge st =
     (if file_i2c st = 0 then Some (- 1, st)
      else let iLen = wrap32 (int (length szMsg)) in
        if bLarge \<noteq> 0
        then let iLen = (if add32 iLen x > 8 then sub32 8 x else iLen) in
          if iLen < 0 then Some (- 1, st)
          else do {
            st' \<leftarrow> for_loop [0..<nat iLen] (large_glyph_body (mul32 x 16) y szMsg) st;
            Some (0, st') }
        else let st1 = oledSetPosition x y st;
                 iLen = (if add32 iLen x > 16 then sub32 16 x else iLen) in
          if iLen < 0 then Some (- 1, st1)
          else do {
            st' \<leftarrow> for_loop [0..<nat iLen] (small_glyph_body szMsg) st1;
            Some (0, st') })"

definition oledFill :: "u8 \<Rightarrow> oled \<Rightarrow> (int \<times> oled) option" where
  "oledFill ucData st =
     (if file_i2c st = 0 then Some (- 1, st)
      else do {
        st' \<leftarrow> for_loop [0..<8]
                 (\<lambda>y s. oledWriteDataBlock (replicate 128 ucData) (oledSetPosition 0 (int y) s)) st;
        Some (0, st') })"

definition initbuf :: "u8 list" where
  "initbuf = [0x00, 0xae, 0xa8, 0x3f, 0xd3, 0x00, 0x40, 0xa0, 0xa1, 0xc0, 0xc8,
              0xda, 0x12, 0x81, 0xff, 0xa4, 0xa6, 0xd5, 0x80, 0x8d, 0x14,
              0xaf, 0x20, 0x02]"

definition oledInit :: "env \<Rightarrow> int \<Rightarrow> oled \<Rightarrow> (int \<times> oled) option" where
  "oledInit e iAddr st =
     (let st1 = st\<lparr>file_i2c := open_result e\<rparr> in
      if file_i2c st1 < 0 then Some (- 1, st1\<lparr>file_i2c := 0\<rparr>)
      else if ioctl_result e (file_i2c st1) iAddr < 0 then Some (- 1, st1\<lparr>file_i2c := 0\<rparr>)
      else do {
        let st2 = write_i2c initbuf st1;
        f \<leftarrow> RotateFont90 (ucFont st2) (stack_bytes e);
        Some (0, st2\<lparr>ucFont := f\<rparr>) })"

subsection \<open>The state at program start\<close>

text \<open>
  The three \<open>static\<close> variables start zeroed; \<open>ucFont\<close> holds the font table the
  program is linked with. Nothing has been written to the bus.
\<close>

definition power_on :: "u8 list \<Rightarrow> oled" where
  "power_on font =
     \<lparr>ucFont = font, iScreenOffset = 0, ucScreen = replicate 1024 0, file_i2c = 0, bus = []\<rparr>"

section \<open>Loops and bits\<close>

lemma bit_0x80: "bit (0x80 :: u8) n \<longleftrightarrow> n = 7"
proof -
  have "(0x80 :: u8) = push_bit 7 1" by simp
  then show ?thesis by (simp only: bit_push_bit_iff) (auto simp: bit_1_iff)
qed

lemma bit_u8_high: "8 \<le> n \<Longrightarrow> \<not> bit (c :: u8) n"
  by (auto dest: bit_imp_le_length)

lemma bit_shift_in:
  "bit (shift_in b m c) n \<longleftrightarrow> (if n = 7 then b AND m \<noteq> 0 else n < 7 \<and> bit c (Suc n))"
proof (cases "n < 7")
  case True
  then show ?thesis
    using bit_0x80 [of n] by (auto simp add: shift_in_def Let_def bit_or_iff bit_drop_bit_eq)
next
  case False
  then have "n = 7 \<or> 8 \<le> n" by arith
  then show ?thesis
  proof
    assume "n = 7"
    then show ?thesis
      using bit_0x80 [of n] bit_u8_high [of 8 c] by (auto simp add: shift_in_def Let_def bit_or_iff bit_drop_bit_eq)
  next
    assume "8 \<le> n"
    then show ?thesis using bit_u8_high [of n] by simp
  qed
qed

lemma mask_test: "((b::u8) AND push_bit y 1 \<noteq> 0) = bit b y"
  by (metis bit_iff_and_push_bit_not_eq_0)

lemma mask_test_exp: "((b::u8) AND 2 ^ y \<noteq> 0) = bit b y"
  using mask_test [of b y] by simp

lemma for_loop_append:
  "for_loop (xs @ ys) body s = (case for_loop xs body s of None \<Rightarrow> None | Some s' \<Rightarrow> for_loop ys body s')"
  by (induction xs arbitrary: s) (auto split: option.splits)

lemma for_loop_invariant:
  assumes "P 0 s0"
    and "\<And>k s. k < n \<Longrightarrow> P k s \<Longrightarrow> \<exists>s'. body k s = Some s' \<and> P (Suc k) s'"
  shows "\<exists>s. for_loop [0..<n] body s0 = Some s \<and> P n s"
  using assms(2)
proof (induction n)
  case 0
  then show ?case using assms(1) by simp
next
  case (Suc n)
  then obtain s where s: "for_loop [0..<n] body s0 = Some s" "P n s"
    by (metis less_Suc_eq)
  from Suc.prems [of n s] s obtain s' where "body n s = Some s'" "P (Suc n) s'"
    by auto
  with s show ?case by (simp add: for_loop_append)
qed

lemma small_x_loop:
  assumes "s + 8 \<le> length font"
  shows "\<exists>c. for_loop [0..<8] (small_x_body font s (push_bit y 1)) 0 = Some c
           \<and> (\<forall>x<8. bit c x = bit (font ! (s + x)) y)"
proof -
  let ?P = "\<lambda>k (c::u8). \<forall>n. bit c n \<longleftrightarrow> 8 \<le> n + k \<and> n < 8 \<and> bit (font ! (s + (n + k - 8))) y"
  have "\<exists>c. for_loop [0..<8] (small_x_body font s (push_bit y 1)) 0 = Some c \<and> ?P 8 c"
  proof (rule for_loop_invariant [where P = ?P])
    show "?P 0 0" by simp
  next
    fix k c assume k: "k < 8" and P: "?P k c"
    have rd: "rd font (s + k) = Some (font ! (s + k))"
      using k assms by (simp add: rd_def)
    have "?P (Suc k) (shift_in (font ! (s + k)) (push_bit y 1) c)"
    proof (intro allI)
      fix n
      show "bit (shift_in (font ! (s + k)) (push_bit y 1) c) n \<longleftrightarrow>
            8 \<le> n + Suc k \<and> n < 8 \<and> bit (font ! (s + (n + Suc k - 8))) y"
        using P [rule_format, of "Suc n"] k
        by (cases "n = 7") (auto simp: bit_shift_in mask_test_exp)
    qed
    then show "\<exists>c'. small_x_body font s (push_bit y 1) k c = Some c' \<and> ?P (Suc k) c'"
      by (simp add: small_x_body_def rd)
  qed
  then show ?thesis by auto
qed

section \<open>The font rotation\<close>

lemma memcpy_to_Some:
  assumes "k + length src \<le> length dst"
  shows "\<exists>r. memcpy_to dst k src = Some r \<and> length r = length dst
           \<and> (\<forall>n<length dst. r ! n = (if k \<le> n \<and> n < k + length src then src ! (n - k) else dst ! n))"
proof -
  let ?r = "take k dst @ src @ drop (k + length src) dst"
  have len: "length ?r = length dst" using assms by simp
  have "?r ! n = (if k \<le> n \<and> n < k + length src then src ! (n - k) else dst ! n)"
    if "n < length dst" for n
    using that assms by (auto simp: nth_append)
  with len show ?thesis using assms by (simp add: memcpy_to_def)
qed

lemma small_y_loop:
  assumes "s + 8 \<le> length font" and "8 \<le> length tmp"
  shows "\<exists>m t. for_loop [0..<8] (small_y_body font s) (0x1, tmp) = Some (m, t)
           \<and> length t = length tmp
           \<and> (\<forall>y<8. \<forall>x<8. bit (t ! (7 - y)) x = bit (font ! (s + x)) y)"
proof -
  let ?P = "\<lambda>k (mt :: u8 \<times> u8 list). fst mt = push_bit k 1 \<and> length (snd mt) = length tmp
              \<and> (\<forall>y<k. \<forall>x<8. bit (snd mt ! (7 - y)) x = bit (font ! (s + x)) y)"
  have "\<exists>mt. for_loop [0..<8] (small_y_body font s) (0x1, tmp) = Some mt \<and> ?P 8 mt"
  proof (rule for_loop_invariant [where P = ?P])
    show "?P 0 (0x1, tmp)" by simp
  next
    fix k mt assume k: "k < 8" and P: "?P k mt"
    obtain m t where mt: "mt = (m, t)" by (cases mt)
    from P mt have m: "m = push_bit k 1" and lt: "length t = length tmp"
      and old: "\<And>y x. y < k \<Longrightarrow> x < 8 \<Longrightarrow> bit (t ! (7 - y)) x = bit (font ! (s + x)) y"
      by auto
    from small_x_loop [OF assms(1), of k] obtain c
      where c: "for_loop [0..<8] (small_x_body font s (push_bit k 1)) 0 = Some c"
        and cb: "\<And>x. x < 8 \<Longrightarrow> bit c x = bit (font ! (s + x)) k"
      by blast
    have w: "wr t (7 - k) c = Some (t[7 - k := c])"
      using lt assms(2) by (simp add: wr_def)
    have body: "small_y_body font s k mt = Some (push_bit 1 m, t[7 - k := c])"
      unfolding mt small_y_body_def m using c w by simp
    have "bit (t[7 - k := c] ! (7 - y)) x = bit (font ! (s + x)) y"
      if "y < Suc k" "x < 8" for y x
    proof (cases "y = k")
      case True
      then show ?thesis using cb [OF that(2)] lt assms(2) by simp
    next
      case False
      with that k have "y < k" "7 - k \<noteq> 7 - y" by arith+
      then show ?thesis using old [OF \<open>y < k\<close> that(2)] by simp
    qed
    then have "?P (Suc k) (push_bit 1 m, t[7 - k := c])"
      using lt by (simp add: m push_bit_double)
    with body show "\<exists>mt'. small_y_body font s k mt = Some mt' \<and> ?P (Suc k) mt'"
      by blast
  qed
  then show ?thesis by auto
qed

lemma rotate_small_glyph_Some:
  assumes "i * 8 + 8 \<le> length font" and "8 \<le> length tmp"
  shows "\<exists>f t. rotate_small_glyph i (font, tmp) = Some (f, t)
           \<and> length f = length font \<and> length t = length tmp
           \<and> (\<forall>y<8. \<forall>x<8. bit (f ! (i * 8 + (7 - y))) x = bit (font ! (i * 8 + x)) y)
           \<and> (\<forall>n<length font. \<not> (i * 8 \<le> n \<and> n < i * 8 + 8) \<longrightarrow> f ! n = font ! n)"
proof -
  from small_y_loop [OF assms] obtain m t
    where loop: "for_loop [0..<8] (small_y_body font (i * 8)) (0x1, tmp) = Some (m, t)"
      and lt: "length t = length tmp"
      and tb: "\<And>y x. y < 8 \<Longrightarrow> x < 8 \<Longrightarrow> bit (t ! (7 - y)) x = bit (font ! (i * 8 + x)) y"
    by blast
  have blk: "rd_block t 0 8 = Some (take 8 t)"
    using lt assms(2) by (simp add: rd_block_def)
  have l8: "length (take 8 t) = 8" using lt assms(2) by simp
  from memcpy_to_Some [of "i * 8" "take 8 t" font] assms(1) l8 obtain f
    where f: "memcpy_to font (i * 8) (take 8 t) = Some f" and lf: "length f = length font"
      and fn: "\<And>n. n < length font \<Longrightarrow>
                 f ! n = (if i * 8 \<le> n \<and> n < i * 8 + 8 then take 8 t ! (n - i * 8) else font ! n)"
    by auto
  have res: "rotate_small_glyph i (font, tmp) = Some (f, t)"
    by (simp add: rotate_small_glyph_def loop blk f)
  have "bit (f ! (i * 8 + (7 - y))) x = bit (font ! (i * 8 + x)) y" if "y < 8" "x < 8" for y x
  proof -
    have "i * 8 + (7 - y) < length font" using assms(1) by arith
    moreover have "7 - y < 8" by arith
    ultimately have "f ! (i * 8 + (7 - y)) = t ! (7 - y)" using fn [of "i * 8 + (7 - y)"] by simp
    then show ?thesis using tb [OF that] by simp
  qed
  with res lf lt fn show ?thesis by simp
qed

lemma rotate_small_loop:
  assumes "2048 \<le> length font" and "8 \<le> length tmp"
  shows "\<exists>f t. for_loop [0..<256] rotate_small_glyph (font, tmp) = Some (f, t)
           \<and> length f = length font \<and> length t = length tmp
           \<and> (\<forall>i<256. \<forall>y<8. \<forall>x<8. bit (f ! (i * 8 + (7 - y))) x = bit (font ! (i * 8 + x)) y)
           \<and> (\<forall>n<length font. 2048 \<le> n \<longrightarrow> f ! n = font ! n)"
proof -
  let ?P = "\<lambda>k (ft :: u8 list \<times> u8 list).
      length (fst ft) = length font \<and> length (snd ft) = length tmp
      \<and> (\<forall>i<k. \<forall>y<8. \<forall>x<8. bit (fst ft ! (i * 8 + (7 - y))) x = bit (font ! (i * 8 + x)) y)
      \<and> (\<forall>n<length font. k * 8 \<le> n \<longrightarrow> fst ft ! n = font ! n)"
  have "\<exists>ft. for_loop [0..<256] rotate_small_glyph (font, tmp) = Some ft \<and> ?P 256 ft"
  proof (rule for_loop_invariant [where P = ?P])
    show "?P 0 (font, tmp)" by simp
  next
    fix k ft assume k: "k < 256" and P: "?P k ft"
    obtain f t where ft: "ft = (f, t)" by (cases ft)
    from P ft have lf: "length f = length font" and lt: "length t = length tmp"
      and prev: "\<And>i y x. i < k \<Longrightarrow> y < 8 \<Longrightarrow> x < 8 \<Longrightarrow>
                   bit (f ! (i * 8 + (7 - y))) x = bit (font ! (i * 8 + x)) y"
      and rest: "\<And>n. n < length font \<Longrightarrow> k * 8 \<le> n \<Longrightarrow> f ! n = font ! n"
      by auto
    have b1: "k * 8 + 8 \<le> length f" using k assms(1) lf by arith
    have b2: "8 \<le> length t" using lt assms(2) by simp
    from rotate_small_glyph_Some [OF b1 b2] obtain f' t'
      where r: "rotate_small_glyph k (f, t) = Some (f', t')"
        and lf': "length f' = length f" and lt': "length t' = length t"
        and new: "\<And>y x. y < 8 \<Longrightarrow> x < 8 \<Longrightarrow>
                    bit (f' ! (k * 8 + (7 - y))) x = bit (f ! (k * 8 + x)) y"
        and same: "\<And>n. n < length f \<Longrightarrow> \<not> (k * 8 \<le> n \<and> n < k * 8 + 8) \<Longrightarrow> f' ! n = f ! n"
      by blast
    have "bit (f' ! (i * 8 + (7 - y))) x = bit (font ! (i * 8 + x)) y"
      if "i < Suc k" "y < 8" "x < 8" for i y x
    proof (cases "i = k")
      case True
      have "k * 8 + x < length font" using b1 lf that(3) by arith
      then have "f ! (k * 8 + x) = font ! (k * 8 + x)" by (rule rest) simp
      then show ?thesis using new [OF that(2,3)] True by simp
    next
      case False
      with that have ik: "i < k" by arith
      then have "i * 8 + (7 - y) < k * 8" by arith
      moreover from this b1 have "i * 8 + (7 - y) < length f" by arith
      ultimately have "f' ! (i * 8 + (7 - y)) = f ! (i * 8 + (7 - y))"
        using same [of "i * 8 + (7 - y)"] by simp
      then show ?thesis using prev [OF ik that(2,3)] by simp
    qed
    moreover have "f' ! n = font ! n" if "n < length font" "Suc k * 8 \<le> n" for n
    proof -
      have "f' ! n = f ! n" using same [of n] that lf by simp
      then show ?thesis using rest [of n] that by simp
    qed
    ultimately have "?P (Suc k) (f', t')" using lf lf' lt lt' by simp
    with r ft show "\<exists>ft'. rotate_small_glyph k ft = Some ft' \<and> ?P (Suc k) ft'" by blast
  qed
  then show ?thesis by auto
qed

lemma large_x_loop:
  assumes "s + 16 \<le> length font"
  shows "\<exists>c c2. for_loop [0..<8] (large_x_body font s (push_bit y 1)) (0, 0) = Some (c, c2)
           \<and> (\<forall>x<8. bit c x = bit (font ! (s + x * 2)) y)
           \<and> (\<forall>x<8. bit c2 x = bit (font ! (s + (x * 2 + 1))) y)"
proof -
  let ?P = "\<lambda>k (cc :: u8 \<times> u8).
      (\<forall>n. bit (fst cc) n \<longleftrightarrow> 8 \<le> n + k \<and> n < 8 \<and> bit (font ! (s + (n + k - 8) * 2)) y)
    \<and> (\<forall>n. bit (snd cc) n \<longleftrightarrow> 8 \<le> n + k \<and> n < 8 \<and> bit (font ! (s + ((n + k - 8) * 2 + 1))) y)"
  have "\<exists>cc. for_loop [0..<8] (large_x_body font s (push_bit y 1)) (0, 0) = Some cc \<and> ?P 8 cc"
  proof (rule for_loop_invariant [where P = ?P])
    show "?P 0 (0, 0)" by simp
  next
    fix k cc assume k: "k < 8" and P: "?P k cc"
    obtain c c2 where cc: "cc = (c, c2)" by (cases cc)
    have rd1: "rd font (s + k * 2) = Some (font ! (s + k * 2))"
      and rd2: "rd font (s + (k * 2 + 1)) = Some (font ! (s + (k * 2 + 1)))"
      using k assms by (simp_all add: rd_def)
    have body: "large_x_body font s (push_bit y 1) k cc =
        Some (shift_in (font ! (s + k * 2)) (push_bit y 1) c,
              shift_in (font ! (s + (k * 2 + 1))) (push_bit y 1) c2)"
      unfolding cc large_x_body_def using rd1 rd2 by simp
    have "bit (shift_in (font ! (s + k * 2)) (push_bit y 1) c) n \<longleftrightarrow>
            8 \<le> n + Suc k \<and> n < 8 \<and> bit (font ! (s + (n + Suc k - 8) * 2)) y" for n
      using P [THEN conjunct1, rule_format, of "Suc n"] k cc
      by (cases "n = 7") (auto simp: bit_shift_in mask_test_exp)
    moreover have "bit (shift_in (font ! (s + (k * 2 + 1))) (push_bit y 1) c2) n \<longleftrightarrow>
            8 \<le> n + Suc k \<and> n < 8 \<and> bit (font ! (s + ((n + Suc k - 8) * 2 + 1))) y" for n
      using P [THEN conjunct2, rule_format, of "Suc n"] k cc
      by (cases "n = 7") (auto simp: bit_shift_in mask_test_exp)
    ultimately show "\<exists>cc'. large_x_body font s (push_bit y 1) k cc = Some cc' \<and> ?P (Suc k) cc'"
      unfolding body by simp
  qed
  then show ?thesis by auto
qed

lemma large_y_loop:
  assumes "s + 16 \<le> length font" and "d + 16 \<le> length tmp"
  shows "\<exists>m t. for_loop [0..<8] (large_y_body font s d) (0x1, tmp) = Some (m, t)
           \<and> length t = length tmp
           \<and> (\<forall>y<8. \<forall>x<8. bit (t ! (d + (7 - y))) x = bit (font ! (s + x * 2)) y)
           \<and> (\<forall>y<8. \<forall>x<8. bit (t ! (d + (15 - y))) x = bit (font ! (s + (x * 2 + 1))) y)
           \<and> (\<forall>n<length tmp. \<not> (d \<le> n \<and> n < d + 16) \<longrightarrow> t ! n = tmp ! n)"
proof -
  let ?P = "\<lambda>k (mt :: u8 \<times> u8 list). fst mt = push_bit k 1 \<and> length (snd mt) = length tmp
      \<and> (\<forall>y<k. \<forall>x<8. bit (snd mt ! (d + (7 - y))) x = bit (font ! (s + x * 2)) y)
      \<and> (\<forall>y<k. \<forall>x<8. bit (snd mt ! (d + (15 - y))) x = bit (font ! (s + (x * 2 + 1))) y)
      \<and> (\<forall>n<length tmp. \<not> (d \<le> n \<and> n < d + 16) \<longrightarrow> snd mt ! n = tmp ! n)"
  have "\<exists>mt. for_loop [0..<8] (large_y_body font s d) (0x1, tmp) = Some mt \<and> ?P 8 mt"
  proof (rule for_loop_invariant [where P = ?P])
    show "?P 0 (0x1, tmp)" by simp
  next
    fix k mt assume k: "k < 8" and P: "?P k mt"
    obtain m t where mt: "mt = (m, t)" by (cases mt)
    from P mt have m: "m = push_bit k 1" and lt: "length t = length tmp"
      and old1: "\<And>y x. y < k \<Longrightarrow> x < 8 \<Longrightarrow> bit (t ! (d + (7 - y))) x = bit (font ! (s + x * 2)) y"
      and old2: "\<And>y x. y < k \<Longrightarrow> x < 8 \<Longrightarrow>
                   bit (t ! (d + (15 - y))) x = bit (font ! (s + (x * 2 + 1))) y"
      and out: "\<And>n. n < length tmp \<Longrightarrow> \<not> (d \<le> n \<and> n < d + 16) \<Longrightarrow> t ! n = tmp ! n"
      by auto
    from large_x_loop [OF assms(1), of k] obtain c c2
      where c: "for_loop [0..<8] (large_x_body font s (push_bit k 1)) (0, 0) = Some (c, c2)"
        and cb: "\<And>x. x < 8 \<Longrightarrow> bit c x = bit (font ! (s + x * 2)) k"
        and cb2: "\<And>x. x < 8 \<Longrightarrow> bit c2 x = bit (font ! (s + (x * 2 + 1))) k"
      by blast
    let ?t' = "t[d + (7 - k) := c, d + (15 - k) := c2]"
    have i1: "d + (7 - k) < length t" and i2: "d + (15 - k) < length t"
      using lt assms(2) k by arith+
    have w: "wr t (d + (7 - k)) c = Some (t[d + (7 - k) := c])"
      and w2: "wr (t[d + (7 - k) := c]) (d + (15 - k)) c2 = Some ?t'"
      using i1 i2 by (simp_all add: wr_def)
    have body: "large_y_body font s d k mt = Some (push_bit 1 m, ?t')"
      unfolding mt large_y_body_def m using c w w2 by simp
    have ne: "d + (7 - k) \<noteq> d + (15 - k)" using k by arith
    have n1: "bit (?t' ! (d + (7 - y))) x = bit (font ! (s + x * 2)) y"
      if "y < Suc k" "x < 8" for y x
    proof (cases "y = k")
      case True
      then show ?thesis using cb [OF that(2)] i1 i2 ne by simp
    next
      case False
      with that k have yk: "y < k" and "d + (7 - k) \<noteq> d + (7 - y)" "d + (15 - k) \<noteq> d + (7 - y)"
        by arith+
      then show ?thesis using old1 [OF yk that(2)] by simp
    qed
    have n2: "bit (?t' ! (d + (15 - y))) x = bit (font ! (s + (x * 2 + 1))) y"
      if "y < Suc k" "x < 8" for y x
    proof (cases "y = k")
      case True
      then show ?thesis using cb2 [OF that(2)] i1 i2 by simp
    next
      case False
      with that k have yk: "y < k" and "d + (7 - k) \<noteq> d + (15 - y)" "d + (15 - k) \<noteq> d + (15 - y)"
        by arith+
      then show ?thesis using old2 [OF yk that(2)] by simp
    qed
    have n3: "?t' ! n = tmp ! n" if "n < length tmp" "\<not> (d \<le> n \<and> n < d + 16)" for n
    proof -
      have "d + (7 - k) \<noteq> n" "d + (15 - k) \<noteq> n" using that(2) k by arith+
      then show ?thesis using out [OF that] by simp
    qed
    have "?P (Suc k) (push_bit 1 m, ?t')"
      using lt n1 n2 n3 by (simp add: m push_bit_double)
    with body show "\<exists>mt'. large_y_body font s d k mt = Some mt' \<and> ?P (Suc k) mt'"
      by blast
  qed
  then show ?thesis by auto
qed

lemma large_band_Some:
  assumes "9728 + 12 + i * 64 + j * 16 + 16 \<le> length font" and "j * 16 + 16 \<le> length tmp"
  shows "\<exists>t. large_band font i j tmp = Some t \<and> length t = length tmp
           \<and> (\<forall>y<8. \<forall>x<8. bit (t ! (j * 16 + (7 - y))) x
                 = bit (font ! (9728 + 12 + i * 64 + j * 16 + x * 2)) y)
           \<and> (\<forall>y<8. \<forall>x<8. bit (t ! (j * 16 + (15 - y))) x
                 = bit (font ! (9728 + 12 + i * 64 + j * 16 + (x * 2 + 1))) y)
           \<and> (\<forall>n<length tmp. \<not> (j * 16 \<le> n \<and> n < j * 16 + 16) \<longrightarrow> t ! n = tmp ! n)"
  using large_y_loop [OF assms] unfolding large_band_def by fastforce

lemma large_bands_loop:
  assumes "9728 + 12 + i * 64 + 64 \<le> length font" and "64 \<le> length tmp"
  shows "\<exists>t. for_loop [0..<4] (large_band font i) tmp = Some t \<and> length t = length tmp
           \<and> (\<forall>j<4. \<forall>y<8. \<forall>x<8.
                 bit (t ! (j * 16 + (7 - y))) x
                   = bit (font ! (9728 + 12 + i * 64 + j * 16 + x * 2)) y
               \<and> bit (t ! (j * 16 + (15 - y))) x
                   = bit (font ! (9728 + 12 + i * 64 + j * 16 + (x * 2 + 1))) y)"
proof -
  let ?P = "\<lambda>k (t :: u8 list). length t = length tmp
      \<and> (\<forall>j<k. \<forall>y<8. \<forall>x<8.
             bit (t ! (j * 16 + (7 - y))) x
               = bit (font ! (9728 + 12 + i * 64 + j * 16 + x * 2)) y
           \<and> bit (t ! (j * 16 + (15 - y))) x
               = bit (font ! (9728 + 12 + i * 64 + j * 16 + (x * 2 + 1))) y)"
  have "\<exists>t. for_loop [0..<4] (large_band font i) tmp = Some t \<and> ?P 4 t"
  proof (rule for_loop_invariant [where P = ?P])
    show "?P 0 tmp" by simp
  next
    fix k t assume k: "k < 4" and P: "?P k t"
    from P have lt: "length t = length tmp"
      and old: "\<And>j y x. j < k \<Longrightarrow> y < 8 \<Longrightarrow> x < 8 \<Longrightarrow>
             bit (t ! (j * 16 + (7 - y))) x
               = bit (font ! (9728 + 12 + i * 64 + j * 16 + x * 2)) y
           \<and> bit (t ! (j * 16 + (15 - y))) x
               = bit (font ! (9728 + 12 + i * 64 + j * 16 + (x * 2 + 1))) y"
      by auto
    have b1: "9728 + 12 + i * 64 + k * 16 + 16 \<le> length font" using assms(1) k by arith
    have b2: "k * 16 + 16 \<le> length t" using assms(2) lt k by arith
    from large_band_Some [OF b1 b2] obtain t'
      where r: "large_band font i k t = Some t'" and lt': "length t' = length t"
        and new1: "\<And>y x. y < 8 \<Longrightarrow> x < 8 \<Longrightarrow> bit (t' ! (k * 16 + (7 - y))) x
                 = bit (font ! (9728 + 12 + i * 64 + k * 16 + x * 2)) y"
        and new2: "\<And>y x. y < 8 \<Longrightarrow> x < 8 \<Longrightarrow> bit (t' ! (k * 16 + (15 - y))) x
                 = bit (font ! (9728 + 12 + i * 64 + k * 16 + (x * 2 + 1))) y"
        and same: "\<And>n. n < length t \<Longrightarrow> \<not> (k * 16 \<le> n \<and> n < k * 16 + 16) \<Longrightarrow> t' ! n = t ! n"
      by blast
    have "bit (t' ! (j * 16 + (7 - y))) x
               = bit (font ! (9728 + 12 + i * 64 + j * 16 + x * 2)) y
           \<and> bit (t' ! (j * 16 + (15 - y))) x
               = bit (font ! (9728 + 12 + i * 64 + j * 16 + (x * 2 + 1))) y"
      if "j < Suc k" "y < 8" "x < 8" for j y x
    proof (cases "j = k")
      case True
      then show ?thesis using new1 [OF that(2,3)] new2 [OF that(2,3)] by simp
    next
      case False
      with that have jk: "j < k" by arith
      have "j * 16 + (7 - y) < k * 16" "j * 16 + (15 - y) < k * 16" using jk by arith+
      moreover have "j * 16 + (7 - y) < length t" "j * 16 + (15 - y) < length t"
        using jk b2 by arith+
      ultimately have "t' ! (j * 16 + (7 - y)) = t ! (j * 16 + (7 - y))"
        and "t' ! (j * 16 + (15 - y)) = t ! (j * 16 + (15 - y))"
        using same [of "j * 16 + (7 - y)"] same [of "j * 16 + (15 - y)"] by simp_all
      then show ?thesis using old [OF jk that(2,3)] by simp
    qed
    then have "?P (Suc k) t'" using lt lt' by simp
    with r show "\<exists>t'. large_band font i k t = Some t' \<and> ?P (Suc k) t'" by blast
  qed
  then show ?thesis by auto
qed

lemma rotate_large_glyph_Some:
  assumes "9728 + 12 + i * 64 + 64 \<le> length font" and "64 \<le> length tmp"
  shows "\<exists>f t. rotate_large_glyph i (font, tmp) = Some (f, t)
           \<and> length f = length font \<and> length t = length tmp
           \<and> (\<forall>j<4. \<forall>y<8. \<forall>x<8.
                 bit (f ! (9728 + i * 64 + j * 16 + (7 - y))) x
                   = bit (font ! (9728 + 12 + i * 64 + j * 16 + x * 2)) y
               \<and> bit (f ! (9728 + i * 64 + j * 16 + (15 - y))) x
                   = bit (font ! (9728 + 12 + i * 64 + j * 16 + (x * 2 + 1))) y)
           \<and> (\<forall>n<length font. \<not> (9728 + i * 64 \<le> n \<and> n < 9728 + i * 64 + 64)
                 \<longrightarrow> f ! n = font ! n)"
proof -
  from large_bands_loop [OF assms] obtain t
    where loop: "for_loop [0..<4] (large_band font i) tmp = Some t"
      and lt: "length t = length tmp"
      and tb: "\<And>j y x. j < 4 \<Longrightarrow> y < 8 \<Longrightarrow> x < 8 \<Longrightarrow>
                 bit (t ! (j * 16 + (7 - y))) x
                   = bit (font ! (9728 + 12 + i * 64 + j * 16 + x * 2)) y
               \<and> bit (t ! (j * 16 + (15 - y))) x
                   = bit (font ! (9728 + 12 + i * 64 + j * 16 + (x * 2 + 1))) y"
    by blast
  have blk: "rd_block t 0 64 = Some (take 64 t)"
    using lt assms(2) by (simp add: rd_block_def)
  have l64: "length (take 64 t) = 64" using lt assms(2) by simp
  have "9728 + i * 64 + length (take 64 t) \<le> length font" using assms(1) l64 by arith
  from memcpy_to_Some [OF this] l64 obtain f
    where f: "memcpy_to font (9728 + i * 64) (take 64 t) = Some f"
      and lf: "length f = length font"
      and fn: "\<And>n. n < length font \<Longrightarrow>
                 f ! n = (if 9728 + i * 64 \<le> n \<and> n < 9728 + i * 64 + 64
                          then take 64 t ! (n - (9728 + i * 64)) else font ! n)"
    by auto
  have res: "rotate_large_glyph i (font, tmp) = Some (f, t)"
    by (simp add: rotate_large_glyph_def loop blk f)
  have at: "f ! (9728 + i * 64 + r) = t ! r" if "r < 64" for r
  proof -
    have "9728 + i * 64 + r < length font" using assms(1) that by arith
    from fn [OF this] that show ?thesis by simp
  qed
  have "bit (f ! (9728 + i * 64 + j * 16 + (7 - y))) x
                   = bit (font ! (9728 + 12 + i * 64 + j * 16 + x * 2)) y
               \<and> bit (f ! (9728 + i * 64 + j * 16 + (15 - y))) x
                   = bit (font ! (9728 + 12 + i * 64 + j * 16 + (x * 2 + 1))) y"
    if "j < 4" "y < 8" "x < 8" for j y x
  proof -
    have r1: "j * 16 + (7 - y) < 64" and r2: "j * 16 + (15 - y) < 64" using that by arith+
    have "f ! (9728 + i * 64 + (j * 16 + (7 - y))) = t ! (j * 16 + (7 - y))"
      and "f ! (9728 + i * 64 + (j * 16 + (15 - y))) = t ! (j * 16 + (15 - y))"
      using at [OF r1] at [OF r2] by simp_all
    then show ?thesis using tb [OF that] by (simp add: add.assoc)
  qed
  with res lf lt fn show ?thesis by simp
qed

lemma rotate_large_loop:
  assumes "17932 \<le> length font" and "64 \<le> length tmp"
  shows "\<exists>f t. for_loop [0..<128] rotate_large_glyph (font, tmp) = Some (f, t)
           \<and> length f = length font
           \<and> (\<forall>i<128. \<forall>j<4. \<forall>y<8. \<forall>x<8.
                 bit (f ! (9728 + i * 64 + j * 16 + (7 - y))) x
                   = bit (font ! (9728 + 12 + i * 64 + j * 16 + x * 2)) y
               \<and> bit (f ! (9728 + i * 64 + j * 16 + (15 - y))) x
                   = bit (font ! (9728 + 12 + i * 64 + j * 16 + (x * 2 + 1))) y)
           \<and> (\<forall>n<length font. n < 9728 \<or> 17920 \<le> n \<longrightarrow> f ! n = font ! n)"
proof -
  let ?P = "\<lambda>k (ft :: u8 list \<times> u8 list).
      length (fst ft) = length font \<and> length (snd ft) = length tmp
      \<and> (\<forall>i<k. \<forall>j<4. \<forall>y<8. \<forall>x<8.
                 bit (fst ft ! (9728 + i * 64 + j * 16 + (7 - y))) x
                   = bit (font ! (9728 + 12 + i * 64 + j * 16 + x * 2)) y
               \<and> bit (fst ft ! (9728 + i * 64 + j * 16 + (15 - y))) x
                   = bit (font ! (9728 + 12 + i * 64 + j * 16 + (x * 2 + 1))) y)
      \<and> (\<forall>n<length font. n < 9728 \<or> 9728 + k * 64 \<le> n \<longrightarrow> fst ft ! n = font ! n)"
  have "\<exists>ft. for_loop [0..<128] rotate_large_glyph (font, tmp) = Some ft \<and> ?P 128 ft"
  proof (rule for_loop_invariant [where P = ?P])
    show "?P 0 (font, tmp)" by simp
  next
    fix k ft assume k: "k < 128" and P: "?P k ft"
    obtain f t where ft: "ft = (f, t)" by (cases ft)
    from P ft have lf: "length f = length font" and lt: "length t = length tmp"
      and prev: "\<And>i j y x. i < k \<Longrightarrow> j < 4 \<Longrightarrow> y < 8 \<Longrightarrow> x < 8 \<Longrightarrow>
                 bit (f ! (9728 + i * 64 + j * 16 + (7 - y))) x
                   = bit (font ! (9728 + 12 + i * 64 + j * 16 + x * 2)) y
               \<and> bit (f ! (9728 + i * 64 + j * 16 + (15 - y))) x
                   = bit (font ! (9728 + 12 + i * 64 + j * 16 + (x * 2 + 1))) y"
      and rest: "\<And>n. n < length font \<Longrightarrow> n < 9728 \<or> 9728 + k * 64 \<le> n \<Longrightarrow> f ! n = font ! n"
      by auto
    have b1: "9728 + 12 + k * 64 + 64 \<le> length f" using k assms(1) lf by arith
    have b2: "64 \<le> length t" using lt assms(2) by simp
    from rotate_large_glyph_Some [OF b1 b2] obtain f' t'
      where r: "rotate_large_glyph k (f, t) = Some (f', t')"
        and lf': "length f' = length f" and lt': "length t' = length t"
        and new: "\<And>j y x. j < 4 \<Longrightarrow> y < 8 \<Longrightarrow> x < 8 \<Longrightarrow>
                 bit (f' ! (9728 + k * 64 + j * 16 + (7 - y))) x
                   = bit (f ! (9728 + 12 + k * 64 + j * 16 + x * 2)) y
               \<and> bit (f' ! (9728 + k * 64 + j * 16 + (15 - y))) x
                   = bit (f ! (9728 + 12 + k * 64 + j * 16 + (x * 2 + 1))) y"
        and same: "\<And>n. n < length f \<Longrightarrow> \<not> (9728 + k * 64 \<le> n \<and> n < 9728 + k * 64 + 64)
                     \<Longrightarrow> f' ! n = f ! n"
      by blast
    have "bit (f' ! (9728 + i * 64 + j * 16 + (7 - y))) x
                   = bit (font ! (9728 + 12 + i * 64 + j * 16 + x * 2)) y
               \<and> bit (f' ! (9728 + i * 64 + j * 16 + (15 - y))) x
                   = bit (font ! (9728 + 12 + i * 64 + j * 16 + (x * 2 + 1))) y"
      if "i < Suc k" "j < 4" "y < 8" "x < 8" for i j y x
    proof (cases "i = k")
      case True
      have "9728 + 12 + k * 64 + j * 16 + x * 2 < length font"
        and "9728 + 12 + k * 64 + j * 16 + (x * 2 + 1) < length font"
        using b1 lf that by arith+
      then have "f ! (9728 + 12 + k * 64 + j * 16 + x * 2)
                   = font ! (9728 + 12 + k * 64 + j * 16 + x * 2)"
        and "f ! (9728 + 12 + k * 64 + j * 16 + (x * 2 + 1))
                   = font ! (9728 + 12 + k * 64 + j * 16 + (x * 2 + 1))"
        by (simp_all add: rest)
      then show ?thesis using new [OF that(2,3,4)] True by simp
    next
      case False
      with that have ik: "i < k" by arith
      have u1: "9728 + i * 64 + j * 16 + (7 - y) < 9728 + k * 64"
        and u2: "9728 + i * 64 + j * 16 + (15 - y) < 9728 + k * 64"
        using ik that by arith+
      moreover from u1 u2 b1
      have "9728 + i * 64 + j * 16 + (7 - y) < length f"
        and "9728 + i * 64 + j * 16 + (15 - y) < length f" by arith+
      ultimately have "f' ! (9728 + i * 64 + j * 16 + (7 - y)) = f ! (9728 + i * 64 + j * 16 + (7 - y))"
        and "f' ! (9728 + i * 64 + j * 16 + (15 - y)) = f ! (9728 + i * 64 + j * 16 + (15 - y))"
        using same [of "9728 + i * 64 + j * 16 + (7 - y)"]
          same [of "9728 + i * 64 + j * 16 + (15 - y)"] by simp_all
      then show ?thesis using prev [OF ik that(2,3,4)] by simp
    qed
    moreover have "f' ! n = font ! n"
      if "n < length font" "n < 9728 \<or> 9728 + Suc k * 64 \<le> n" for n
    proof -
      have "f' ! n = f ! n" using same [of n] that lf by auto
      moreover have "f ! n = font ! n" using rest [of n] that by auto
      ultimately show ?thesis by simp
    qed
    ultimately have "?P (Suc k) (f', t')" using lf lf' lt lt' by simp
    with r ft show "\<exists>ft'. rotate_large_glyph k ft = Some ft' \<and> ?P (Suc k) ft'" by blast
  qed
  then show ?thesis by auto
qed

lemma RotateFont90_Some:
  assumes "17932 \<le> length font" and "64 \<le> length tmp"
  shows "\<exists>f. RotateFont90 font tmp = Some f \<and> length f = length font
           \<and> (\<forall>i<256. \<forall>y<8. \<forall>x<8. bit (f ! (i * 8 + (7 - y))) x = bit (font ! (i * 8 + x)) y)
           \<and> (\<forall>i<128. \<forall>j<4. \<forall>y<8. \<forall>x<8.
                 bit (f ! (9728 + i * 64 + j * 16 + (7 - y))) x
                   = bit (font ! (9728 + 12 + i * 64 + j * 16 + x * 2)) y
               \<and> bit (f ! (9728 + i * 64 + j * 16 + (15 - y))) x
                   = bit (font ! (9728 + 12 + i * 64 + j * 16 + (x * 2 + 1))) y)
           \<and> (\<forall>n<length font. 2048 \<le> n \<and> n < 9728 \<or> 17920 \<le> n \<longrightarrow> f ! n = font ! n)"
proof -
  have "2048 \<le> length font" "8 \<le> length tmp" using assms by simp_all
  from rotate_small_loop [OF this] obtain f1 t1
    where s: "for_loop [0..<256] rotate_small_glyph (font, tmp) = Some (f1, t1)"
      and lf1: "length f1 = length font" and lt1: "length t1 = length tmp"
      and sb: "\<And>i y x. i < 256 \<Longrightarrow> y < 8 \<Longrightarrow> x < 8 \<Longrightarrow>
                 bit (f1 ! (i * 8 + (7 - y))) x = bit (font ! (i * 8 + x)) y"
      and srest: "\<And>n. n < length font \<Longrightarrow> 2048 \<le> n \<Longrightarrow> f1 ! n = font ! n"
    by blast
  have "17932 \<le> length f1" "64 \<le> length t1" using assms lf1 lt1 by simp_all
  from rotate_large_loop [OF this] obtain f2 t2
    where l: "for_loop [0..<128] rotate_large_glyph (f1, t1) = Some (f2, t2)"
      and lf2: "length f2 = length f1"
      and lb: "\<And>i j y x. i < 128 \<Longrightarrow> j < 4 \<Longrightarrow> y < 8 \<Longrightarrow> x < 8 \<Longrightarrow>
                 bit (f2 ! (9728 + i * 64 + j * 16 + (7 - y))) x
                   = bit (f1 ! (9728 + 12 + i * 64 + j * 16 + x * 2)) y
               \<and> bit (f2 ! (9728 + i * 64 + j * 16 + (15 - y))) x
                   = bit (f1 ! (9728 + 12 + i * 64 + j * 16 + (x * 2 + 1))) y"
      and lrest: "\<And>n. n < length f1 \<Longrightarrow> n < 9728 \<or> 17920 \<le> n \<Longrightarrow> f2 ! n = f1 ! n"
    by blast
  have res: "RotateFont90 font tmp = Some f2"
    by (simp add: RotateFont90_def s l)
  have c1: "bit (f2 ! (i * 8 + (7 - y))) x = bit (font ! (i * 8 + x)) y"
    if "i < 256" "y < 8" "x < 8" for i y x
  proof -
    have "i * 8 + (7 - y) < 9728" using that by arith
    moreover from this have "i * 8 + (7 - y) < length f1" using assms(1) lf1 by arith
    ultimately have "f2 ! (i * 8 + (7 - y)) = f1 ! (i * 8 + (7 - y))"
      using lrest [of "i * 8 + (7 - y)"] by simp
    then show ?thesis using sb [OF that] by simp
  qed
  have c2: "bit (f2 ! (9728 + i * 64 + j * 16 + (7 - y))) x
                   = bit (font ! (9728 + 12 + i * 64 + j * 16 + x * 2)) y
               \<and> bit (f2 ! (9728 + i * 64 + j * 16 + (15 - y))) x
                   = bit (font ! (9728 + 12 + i * 64 + j * 16 + (x * 2 + 1))) y"
    if "i < 128" "j < 4" "y < 8" "x < 8" for i j y x
  proof -
    have "9728 + 12 + i * 64 + j * 16 + x * 2 < length font"
      and "9728 + 12 + i * 64 + j * 16 + (x * 2 + 1) < length font"
      using assms(1) that by arith+
    then have "f1 ! (9728 + 12 + i * 64 + j * 16 + x * 2)
                 = font ! (9728 + 12 + i * 64 + j * 16 + x * 2)"
      and "f1 ! (9728 + 12 + i * 64 + j * 16 + (x * 2 + 1))
                 = font ! (9728 + 12 + i * 64 + j * 16 + (x * 2 + 1))"
      by (simp_all add: srest)
    then show ?thesis using lb [OF that] by simp
  qed
  have c3: "f2 ! n = font ! n" if "n < length font" "2048 \<le> n \<and> n < 9728 \<or> 17920 \<le> n" for n
  proof -
    have "f2 ! n = f1 ! n" using lrest [of n] that lf1 by auto
    moreover have "f1 ! n = font ! n" using srest [of n] that by auto
    ultimately show ?thesis by simp
  qed
  from res lf1 lf2 c1 c2 c3 show ?thesis by simp
qed

lemma for_loop_reaches:
  assumes "for_loop ks body s = Some s'" and "k \<in> set ks" and "I s"
    and "\<And>j a b. I a \<Longrightarrow> body j a = Some b \<Longrightarrow> I b"
  shows "\<exists>a b. I a \<and> body k a = Some b"
  using assms(1,2,3)
proof (induction ks arbitrary: s)
  case Nil
  then show ?case by simp
next
  case (Cons j ks)
  from Cons.prems(1) obtain s1 where s1: "body j s = Some s1" "for_loop ks body s1 = Some s'"
    by (auto split: option.splits)
  show ?case
  proof (cases "k = j")
    case True
    with s1 Cons.prems(3) show ?thesis by blast
  next
    case False
    with Cons.prems(2) have "k \<in> set ks" by simp
    moreover have "I s1" using assms(4) [OF Cons.prems(3) s1(1)] .
    ultimately show ?thesis using Cons.IH [OF s1(2)] by blast
  qed
qed

lemma memcpy_to_length: "memcpy_to dst k src = Some r \<Longrightarrow> length r = length dst"
  by (auto simp: memcpy_to_def split: if_splits)

lemma rotate_small_glyph_length:
  "rotate_small_glyph i (f, t) = Some (f', t') \<Longrightarrow> length f' = length f"
  by (auto simp: rotate_small_glyph_def memcpy_to_length simp del: upt_rec_numeral split: bind_splits prod.splits)

lemma rotate_large_glyph_length:
  "rotate_large_glyph i (f, t) = Some (f', t') \<Longrightarrow> length f' = length f"
  by (auto simp: rotate_large_glyph_def memcpy_to_length simp del: upt_rec_numeral split: bind_splits prod.splits)

lemma for_loop_preserves:
  assumes "for_loop ks body s = Some s'" and "I s"
    and "\<And>j a b. I a \<Longrightarrow> body j a = Some b \<Longrightarrow> I b"
  shows "I s'"
  using assms(1,2)
proof (induction ks arbitrary: s)
  case Nil
  then show ?case by simp
next
  case (Cons j ks)
  from Cons.prems(1) obtain s1 where s1: "body j s = Some s1" "for_loop ks body s1 = Some s'"
    by (auto split: option.splits)
  have "I s1" using assms(3) [OF Cons.prems(2) s1(1)] .
  then show ?case using Cons.IH [OF s1(2)] by simp
qed

lemma large_x_loop_needs:
  assumes "for_loop [0..<8] (large_x_body font s m) cc = Some cc'"
  shows "s + 16 \<le> length font"
proof -
  have "7 \<in> set [0..<8::nat]" by simp
  from for_loop_reaches [OF assms this, where I = "\<lambda>_. True"]
  obtain a b where "large_x_body font s m 7 a = Some b" by auto
  then show ?thesis
    by (auto simp: large_x_body_def rd_def split: bind_splits prod.splits if_splits)
qed

lemma large_band_needs:
  assumes "large_band font i j t = Some t'"
  shows "9728 + 12 + i * 64 + j * 16 + 16 \<le> length font"
proof -
  from assms obtain mt where
    l: "for_loop [0..<8] (large_y_body font (9728 + 12 + i * 64 + j * 16) (j * 16)) (0x1, t) = Some mt"
    by (auto simp: large_band_def simp del: upt_rec_numeral split: bind_splits)
  have "0 \<in> set [0..<8::nat]" by simp
  from for_loop_reaches [OF l this, where I = "\<lambda>_. True"]
  obtain a b where "large_y_body font (9728 + 12 + i * 64 + j * 16) (j * 16) 0 a = Some b"
    by auto
  then obtain m cc cc' where
    "for_loop [0..<8] (large_x_body font (9728 + 12 + i * 64 + j * 16) m) cc = Some cc'"
    by (auto simp: large_y_body_def simp del: upt_rec_numeral split: bind_splits prod.splits)
  then show ?thesis by (rule large_x_loop_needs)
qed

lemma rotate_large_glyph_needs:
  assumes "rotate_large_glyph i (f, t) = Some ft'"
  shows "9728 + 12 + i * 64 + 64 \<le> length f"
proof -
  from assms obtain t1 where l: "for_loop [0..<4] (large_band f i) t = Some t1"
    by (auto simp: rotate_large_glyph_def simp del: upt_rec_numeral split: bind_splits)
  have "3 \<in> set [0..<4::nat]" by simp
  from for_loop_reaches [OF l this, where I = "\<lambda>_. True"]
  obtain a b where "large_band f i 3 a = Some b" by auto
  from large_band_needs [OF this] show ?thesis by simp
qed

lemma RotateFont90_needs:
  assumes "RotateFont90 font tmp = Some f"
  shows "17932 \<le> length font"
proof -
  let ?I = "\<lambda>ft :: u8 list \<times> u8 list. length (fst ft) = length font"
  from assms obtain f1 t1 ft2
    where s: "for_loop [0..<256] rotate_small_glyph (font, tmp) = Some (f1, t1)"
      and l: "for_loop [0..<128] rotate_large_glyph (f1, t1) = Some ft2"
    by (auto simp: RotateFont90_def simp del: upt_rec_numeral split: bind_splits prod.splits)
  have ps: "?I b" if "?I a" "rotate_small_glyph j a = Some b" for j a b
    using that rotate_small_glyph_length [of j "fst a" "snd a" "fst b" "snd b"] by simp
  have pl: "?I b" if "?I a" "rotate_large_glyph j a = Some b" for j a b
    using that rotate_large_glyph_length [of j "fst a" "snd a" "fst b" "snd b"] by simp
  have I1: "?I (f1, t1)"
    by (rule for_loop_preserves [OF s, where I = ?I]) (simp, rule ps)
  have m: "127 \<in> set [0..<128::nat]" by simp
  have "\<exists>a b. ?I a \<and> rotate_large_glyph 127 a = Some b"
    by (rule for_loop_reaches [where I = ?I, OF l m I1]) (rule pl)
  then obtain a b where a: "?I a" and r: "rotate_large_glyph 127 a = Some b"
    by blast
  obtain fa ta where "a = (fa, ta)" by (cases a)
  with a r rotate_large_glyph_needs [of 127 fa ta b] show ?thesis by simp
qed

lemma u8_eq_bits: "(\<And>x. x < 8 \<Longrightarrow> bit (a :: u8) x = bit b x) \<Longrightarrow> a = b"
  by (rule bit_eqI) (metis bit_u8_high not_le)

lemma large_band_None: "\<not> 9728 + 12 + i * 64 + j * 16 + 16 \<le> length font \<Longrightarrow> large_band font i j t = None"
  using large_band_needs [of font i j t] by (cases "large_band font i j t") auto

lemma large_band_window:
  assumes "length font' = length font" and "j * 16 + 16 \<le> length tmp"
    and "\<And>k. k < 16 \<Longrightarrow> font' ! (9728 + 12 + i * 64 + j * 16 + k) = font ! (9728 + 12 + i * 64 + j * 16 + k)"
  shows "large_band font' i j tmp = large_band font i j tmp"
proof (cases "9728 + 12 + i * 64 + j * 16 + 16 \<le> length font")
  case False
  then show ?thesis using assms(1) by (simp add: large_band_None)
next
  case True
  let ?s = "9728 + 12 + i * 64 + j * 16"
  from large_band_Some [OF True assms(2)] obtain t
    where t: "large_band font i j tmp = Some t" and lt: "length t = length tmp"
      and t1: "\<And>y x. y < 8 \<Longrightarrow> x < 8 \<Longrightarrow> bit (t ! (j * 16 + (7 - y))) x = bit (font ! (?s + x * 2)) y"
      and t2: "\<And>y x. y < 8 \<Longrightarrow> x < 8 \<Longrightarrow> bit (t ! (j * 16 + (15 - y))) x = bit (font ! (?s + (x * 2 + 1))) y"
      and t3: "\<And>n. n < length tmp \<Longrightarrow> \<not> (j * 16 \<le> n \<and> n < j * 16 + 16) \<Longrightarrow> t ! n = tmp ! n"
    by blast
  from True assms(1) have True': "?s + 16 \<le> length font'" by simp
  from large_band_Some [OF True' assms(2)] obtain t'
    where t': "large_band font' i j tmp = Some t'" and lt': "length t' = length tmp"
      and t1': "\<And>y x. y < 8 \<Longrightarrow> x < 8 \<Longrightarrow> bit (t' ! (j * 16 + (7 - y))) x = bit (font' ! (?s + x * 2)) y"
      and t2': "\<And>y x. y < 8 \<Longrightarrow> x < 8 \<Longrightarrow> bit (t' ! (j * 16 + (15 - y))) x = bit (font' ! (?s + (x * 2 + 1))) y"
      and t3': "\<And>n. n < length tmp \<Longrightarrow> \<not> (j * 16 \<le> n \<and> n < j * 16 + 16) \<Longrightarrow> t' ! n = tmp ! n"
    by blast
  have "t' = t"
  proof (rule nth_equalityI)
    show "length t' = length t" using lt lt' by simp
  next
    fix n assume "n < length t'"
    then have n: "n < length tmp" using lt' by simp
    consider "\<not> (j * 16 \<le> n \<and> n < j * 16 + 16)"
      | y where "y < 8" "n = j * 16 + (7 - y)"
      | y where "y < 8" "n = j * 16 + (15 - y)"
    proof (cases "j * 16 \<le> n \<and> n < j * 16 + 16")
      case False
      then show ?thesis using that(1) by blast
    next
      case True
      show ?thesis
      proof (cases "n < j * 16 + 8")
        case True
        with \<open>j * 16 \<le> n \<and> n < j * 16 + 16\<close>
        have "7 - (n - j * 16) < 8" "n = j * 16 + (7 - (7 - (n - j * 16)))" by arith+
        then show ?thesis using that(2) by blast
      next
        case False
        with \<open>j * 16 \<le> n \<and> n < j * 16 + 16\<close>
        have "15 - (n - j * 16) < 8" "n = j * 16 + (15 - (15 - (n - j * 16)))" by arith+
        then show ?thesis using that(3) by blast
      qed
    qed
    then show "t' ! n = t ! n"
    proof cases
      case 1
      then show ?thesis using t3 [OF n] t3' [OF n] by simp
    next
      case (2 y)
      show ?thesis unfolding 2(2)
      proof (rule u8_eq_bits)
        fix x :: nat assume x: "x < 8"
        then have "x * 2 < 16" by simp
        from assms(3) [OF this] t1 [OF 2(1) x] t1' [OF 2(1) x]
        show "bit (t' ! (j * 16 + (7 - y))) x = bit (t ! (j * 16 + (7 - y))) x" by simp
      qed
    next
      case (3 y)
      show ?thesis unfolding 3(2)
      proof (rule u8_eq_bits)
        fix x :: nat assume x: "x < 8"
        then have "x * 2 + 1 < 16" by simp
        from assms(3) [OF this] t2 [OF 3(1) x] t2' [OF 3(1) x]
        show "bit (t' ! (j * 16 + (15 - y))) x = bit (t ! (j * 16 + (15 - y))) x" by simp
      qed
    qed
  qed
  with t t' show ?thesis by simp
qed

lemma RotateFont90_None: "\<not> 17932 \<le> length font \<Longrightarrow> RotateFont90 font tmp = None"
  using RotateFont90_needs [of font tmp] by (cases "RotateFont90 font tmp") auto

text \<open>
  Claim C1, as the code has it. For a font table of at least 17932 bytes (the rotation
  reads up to offset 17931) and each of the 256 small glyphs, \<open>RotateFont90\<close>
  returns, and the byte at offset \<open>7 - y\<close> of the rotated glyph holds at bit \<open>x\<close>
  (not at bit \<open>7 - x\<close>) the bit \<open>y\<close> of the glyph's input byte \<open>x\<close>. So a glyph
  whose row 0 is \<open>0b00000001\<close> and whose other rows are 0 becomes the glyph whose
  byte 7 is \<open>0x01\<close> (bit 0 set) and whose other bytes are 0.
\<close>

theorem RotateFont90_small_glyphs:
  assumes "17932 \<le> length font" and "length tmp = 64" and "i < 256"
  shows "\<exists>f. RotateFont90 font tmp = Some f
           \<and> (\<forall>y<8. \<forall>x<8. bit (f ! (i * 8 + (7 - y))) x = bit (font ! (i * 8 + x)) y)
           \<and> (font ! (i * 8) = 0x01 \<and> (\<forall>r\<in>{1..<8}. font ! (i * 8 + r) = 0) \<longrightarrow>
                f ! (i * 8 + 7) = 0x01 \<and> (\<forall>r<7. f ! (i * 8 + r) = 0))"
proof -
  from assms(2) have "64 \<le> length tmp" by simp
  from RotateFont90_Some [OF assms(1) this] obtain f
    where f: "RotateFont90 font tmp = Some f"
      and b: "\<And>i y x. i < 256 \<Longrightarrow> y < 8 \<Longrightarrow> x < 8 \<Longrightarrow>
                bit (f ! (i * 8 + (7 - y))) x = bit (font ! (i * 8 + x)) y"
    by blast
  have ex: "f ! (i * 8 + 7) = 0x01 \<and> (\<forall>r<7. f ! (i * 8 + r) = 0)"
    if r0: "font ! (i * 8) = 0x01" and rs: "\<forall>r\<in>{1..<8}. font ! (i * 8 + r) = 0"
  proof (intro conjI allI impI)
    show "f ! (i * 8 + 7) = 0x01"
    proof (rule u8_eq_bits)
      fix x :: nat assume x: "x < 8"
      show "bit (f ! (i * 8 + 7)) x = bit (1 :: u8) x"
      proof (cases "x = 0")
        case True
        then show ?thesis using b [OF assms(3), of 0 0] r0 by simp
      next
        case False
        with x rs have "font ! (i * 8 + x) = 0" by simp
        then show ?thesis using b [OF assms(3) _ x, of 0] False by (simp add: bit_1_iff)
      qed
    qed
  next
    fix r :: nat assume r: "r < 7"
    show "f ! (i * 8 + r) = 0"
    proof (rule u8_eq_bits)
      fix x :: nat assume x: "x < 8"
      have y: "7 - r < 8" "7 - (7 - r) = r" "7 - r \<noteq> 0" using r by arith+
      have "\<not> bit (font ! (i * 8 + x)) (7 - r)"
      proof (cases "x = 0")
        case True
        then show ?thesis using r0 y(3) by (simp add: bit_1_iff)
      next
        case False
        with x rs have "font ! (i * 8 + x) = 0" by simp
        then show ?thesis by simp
      qed
      then show "bit (f ! (i * 8 + r)) x = bit (0 :: u8) x"
        using b [OF assms(3) y(1) x] y(2) by simp
    qed
  qed
  from f b [OF assms(3)] ex show ?thesis by blast
qed

text \<open>
  The theorem at the glyph 0 of a table that starts with the byte 1 and is 0 elsewhere.
\<close>

theorem RotateFont90_small_glyphs_witness:
  "17932 \<le> length (0x01 # replicate 17931 (0 :: u8)) \<and> length (replicate 64 (0 :: u8)) = 64
   \<and> (0 :: nat) < 256
   \<and> (\<exists>f. RotateFont90 (0x01 # replicate 17931 0) (replicate 64 0) = Some f
         \<and> bit (f ! 7) 0 \<and> f ! 7 = 0x01 \<and> f ! 6 = 0)"
proof -
  have h: "17932 \<le> length (0x01 # replicate 17931 (0 :: u8))"
    "length (replicate 64 (0 :: u8)) = 64" "(0 :: nat) < 256" by simp_all
  from RotateFont90_small_glyphs [OF h] obtain f
    where f: "RotateFont90 (0x01 # replicate 17931 0) (replicate 64 0) = Some f"
      and b: "\<forall>y<8. \<forall>x<8. bit (f ! (0 * 8 + (7 - y))) x
                = bit ((0x01 # replicate 17931 (0 :: u8)) ! (0 * 8 + x)) y"
      and e: "(0x01 # replicate 17931 (0 :: u8)) ! (0 * 8) = 0x01
              \<and> (\<forall>r\<in>{1..<8}. (0x01 # replicate 17931 (0 :: u8)) ! (0 * 8 + r) = 0)
              \<longrightarrow> f ! (0 * 8 + 7) = 0x01 \<and> (\<forall>r<7. f ! (0 * 8 + r) = 0)"
    by blast
  have "(0x01 # replicate 17931 (0 :: u8)) ! (0 * 8) = 0x01
              \<and> (\<forall>r\<in>{1..<8}. (0x01 # replicate 17931 (0 :: u8)) ! (0 * 8 + r) = 0)"
    by (auto simp: nth_Cons')
  with e have "f ! (0 * 8 + 7) = 0x01" "\<forall>r<7. f ! (0 * 8 + r) = 0" by blast+
  then have "f ! 7 = 0x01" "f ! 6 = 0" by simp_all
  moreover have "bit (f ! 7) 0" using b [rule_format, of 0 0] by simp
  ultimately show ?thesis using h f by blast
qed

text \<open>
  Claim C1 as stated is false: bit 0 of input byte 0 of glyph 0 is set, so the claim
  puts it at bit \<open>7 - 0\<close> of the output byte \<open>7 - 0\<close>; the code leaves that bit clear and
  stores \<open>0x01\<close> there.
\<close>

theorem RotateFont90_small_glyphs_counterexample:
  "bit ((0x01 # replicate 17931 (0 :: u8)) ! (0 * 8 + 0)) 0
   \<and> RotateFont90 (0x01 # replicate 17931 0) (replicate 64 0) \<noteq> None
   \<and> \<not> bit (the (RotateFont90 (0x01 # replicate 17931 0) (replicate 64 0)) ! (0 * 8 + (7 - 0))) (7 - 0)
   \<and> the (RotateFont90 (0x01 # replicate 17931 0) (replicate 64 0)) ! 7 = 0x01"
proof -
  have h: "17932 \<le> length (0x01 # replicate 17931 (0 :: u8))"
    "64 \<le> length (replicate 64 (0 :: u8))" by simp_all
  from RotateFont90_Some [OF h] obtain f
    where f: "RotateFont90 (0x01 # replicate 17931 0) (replicate 64 0) = Some f"
      and b: "\<And>i y x. i < 256 \<Longrightarrow> y < 8 \<Longrightarrow> x < 8 \<Longrightarrow>
                bit (f ! (i * 8 + (7 - y))) x
                  = bit ((0x01 # replicate 17931 (0 :: u8)) ! (i * 8 + x)) y"
    by blast
  have "f ! 7 = 0x01"
  proof (rule u8_eq_bits)
    fix x :: nat assume x: "x < 8"
    from b [of 0 0 x] x show "bit (f ! 7) x = bit (1 :: u8) x"
      by (cases "x = 0") (simp_all add: nth_Cons' bit_1_iff)
  qed
  then show ?thesis using f by (simp add: bit_1_iff)
qed

text \<open>
  Claim C3. For a font table of at least 17932 bytes, each large glyph \<open>i < 128\<close>, band
  \<open>j < 4\<close> and \<open>y, x < 8\<close>, \<open>RotateFont90\<close> returns and the glyph's byte
  \<open>16 j + 7 - y\<close> holds at bit \<open>x\<close> the bit \<open>y\<close> of the source byte \<open>2 x\<close> of the
  band's window, its byte \<open>16 j + 15 - y\<close> holds at bit \<open>x\<close> the bit \<open>y\<close> of the source
  byte \<open>2 x + 1\<close>; the window starts 12 bytes into the glyph, at table offset
  \<open>9728 + 12 + 64 i + 16 j\<close>. The source bytes are those of the table before the call.
\<close>

theorem RotateFont90_large_glyphs:
  assumes "17932 \<le> length font" and "length tmp = 64"
    and "i < 128" and "j < 4" and "y < 8" and "x < 8"
  shows "\<exists>f. RotateFont90 font tmp = Some f
           \<and> bit (f ! (9728 + i * 64 + j * 16 + (7 - y))) x
               = bit (font ! (9728 + 12 + i * 64 + j * 16 + x * 2)) y
           \<and> bit (f ! (9728 + i * 64 + j * 16 + (15 - y))) x
               = bit (font ! (9728 + 12 + i * 64 + j * 16 + (x * 2 + 1))) y"
proof -
  from assms(2) have "64 \<le> length tmp" by simp
  from RotateFont90_Some [OF assms(1) this] assms(3-6) show ?thesis by blast
qed

text \<open>
  The theorem at glyph 0, band 0 of a table whose only nonzero byte is the first byte
  of that band's window.
\<close>

theorem RotateFont90_large_glyphs_witness:
  "17932 \<le> length (replicate 9740 0 @ (0x01 :: u8) # replicate 8191 0)
   \<and> length (replicate 64 (0 :: u8)) = 64
   \<and> (0 :: nat) < 128 \<and> (0 :: nat) < 4 \<and> (0 :: nat) < 8 \<and> (0 :: nat) < 8
   \<and> (\<exists>f. RotateFont90 (replicate 9740 0 @ 0x01 # replicate 8191 0) (replicate 64 0) = Some f
         \<and> bit (f ! 9735) 0 \<and> \<not> bit (f ! 9743) 0)"
proof -
  have h: "17932 \<le> length (replicate 9740 0 @ (0x01 :: u8) # replicate 8191 0)"
    "length (replicate 64 (0 :: u8)) = 64"
    "(0 :: nat) < 128" "(0 :: nat) < 4" "(0 :: nat) < 8" "(0 :: nat) < 8" by simp_all
  from RotateFont90_large_glyphs [OF h] show ?thesis
    by (simp add: nth_append)
qed

text \<open>
  Claim C8, as the code has it. The band \<open>j\<close> of the large glyph \<open>i\<close> is rotated
  within the table exactly when the table reaches to the end of the 16 bytes at glyph
  offsets \<open>12 + 16 j .. 27 + 16 j\<close>, and its result depends on no other byte of the
  table. For \<open>j = 3\<close> these are the glyph offsets 60 to 75: the last 12 lie behind the
  glyph's 64 bytes. The whole rotation stays within the table exactly when the table
  has 17932 bytes or more, 12 more than the \<open>9728 + 8192\<close> of the two fonts.
\<close>

theorem RotateFont90_source_window:
  assumes "length tmp = 64" and "j < 4"
  shows "(large_band font i j tmp \<noteq> None) = (9728 + i * 64 + (12 + j * 16) + 16 \<le> length font)
       \<and> (length font' = length font
            \<and> (\<forall>k<16. font' ! (9728 + i * 64 + (12 + j * 16) + k)
                        = font ! (9728 + i * 64 + (12 + j * 16) + k))
            \<longrightarrow> large_band font' i j tmp = large_band font i j tmp)
       \<and> (RotateFont90 font tmp \<noteq> None) = (17932 \<le> length font)"
proof (intro conjI impI)
  have t: "j * 16 + 16 \<le> length tmp" using assms by simp
  have e: "9728 + i * 64 + (12 + j * 16) = 9728 + 12 + i * 64 + j * 16" by simp
  show "(large_band font i j tmp \<noteq> None) = (9728 + i * 64 + (12 + j * 16) + 16 \<le> length font)"
  proof (cases "9728 + 12 + i * 64 + j * 16 + 16 \<le> length font")
    case True
    from large_band_Some [OF True t] obtain r where "large_band font i j tmp = Some r" by blast
    with True show ?thesis unfolding e by simp
  next
    case False
    from large_band_None [OF False] False show ?thesis unfolding e by simp
  qed
  show "large_band font' i j tmp = large_band font i j tmp"
    if "length font' = length font
            \<and> (\<forall>k<16. font' ! (9728 + i * 64 + (12 + j * 16) + k)
                        = font ! (9728 + i * 64 + (12 + j * 16) + k))"
    using that unfolding e by (intro large_band_window t) simp_all
  show "(RotateFont90 font tmp \<noteq> None) = (17932 \<le> length font)"
  proof (cases "17932 \<le> length font")
    case True
    from assms(1) have "64 \<le> length tmp" by simp
    from RotateFont90_Some [OF True this] obtain f where "RotateFont90 font tmp = Some f"
      by blast
    with True show ?thesis by simp
  next
    case False
    from RotateFont90_None [OF False] False show ?thesis by simp
  qed
qed

text \<open>
  The theorem at band 3 of glyph 0, for two tables of 9804 bytes that agree on the
  band's window.
\<close>

theorem RotateFont90_source_window_witness:
  "length (replicate 64 (0 :: u8)) = 64 \<and> (3 :: nat) < 4
   \<and> large_band (replicate 9804 0) 0 3 (replicate 64 0) \<noteq> None
   \<and> large_band (replicate 9788 7 @ replicate 16 0) 0 3 (replicate 64 0)
       = large_band (replicate 9804 0) 0 3 (replicate 64 0)"
proof -
  have h: "length (replicate 64 (0 :: u8)) = 64" "(3 :: nat) < 4" by simp_all
  have w: "length (replicate 9788 7 @ replicate 16 (0 :: u8)) = length (replicate 9804 (0 :: u8))
     \<and> (\<forall>k<16. (replicate 9788 7 @ replicate 16 (0 :: u8)) ! (9728 + 0 * 64 + (12 + 3 * 16) + k)
                        = replicate 9804 (0 :: u8) ! (9728 + 0 * 64 + (12 + 3 * 16) + k))"
    by (simp add: nth_append)
  from RotateFont90_source_window [OF h, of "replicate 9804 0" 0 "replicate 9788 7 @ replicate 16 0"] w
  show ?thesis by simp
qed

text \<open>
  Claim C8 as stated is false: with a table that ends where the block of glyph 0 ends,
  band 3 of glyph 0 reads outside the table, and 12 more bytes are enough; with a table
  of exactly \<open>9728 + 8192\<close> bytes the rotation reads outside the table.
\<close>

theorem RotateFont90_source_window_counterexample:
  "large_band (replicate (9728 + 0 * 64 + 64) 0) 0 3 (replicate 64 0) = None
   \<and> large_band (replicate (9728 + 0 * 64 + 64 + 12) 0) 0 3 (replicate 64 0) \<noteq> None
   \<and> RotateFont90 (replicate (9728 + 8192) 0) (replicate 64 0) = None"
proof -
  have t: "3 * 16 + 16 \<le> length (replicate 64 (0 :: u8))" by simp
  have "large_band (replicate (9728 + 0 * 64 + 64) 0) 0 3 (replicate 64 0) = None"
    by (rule large_band_None) simp
  moreover have "large_band (replicate (9728 + 0 * 64 + 64 + 12) 0) 0 3 (replicate 64 0) \<noteq> None"
    using large_band_Some [OF _ t, of 0 "replicate (9728 + 0 * 64 + 64 + 12) 0"] by auto
  moreover have "RotateFont90 (replicate (9728 + 8192) 0) (replicate 64 0) = None"
    by (rule RotateFont90_None) simp
  ultimately show ?thesis by blast
qed

section \<open>The bus and the cache\<close>

lemma wrap32_id: "- (2 ^ 31) \<le> v \<Longrightarrow> v < 2 ^ 31 \<Longrightarrow> wrap32 v = v"
  by (simp add: wrap32_def signed_take_bit_int_eq_self)

lemma add32_id: "- 2147483648 \<le> a + b \<Longrightarrow> a + b < 2147483648 \<Longrightarrow> add32 a b = a + b"
  by (simp add: add32_def wrap32_id)

lemma sub32_id: "- 2147483648 \<le> a - b \<Longrightarrow> a - b < 2147483648 \<Longrightarrow> sub32 a b = a - b"
  by (simp add: sub32_def wrap32_id)

lemma mul32_id: "- 2147483648 \<le> a * b \<Longrightarrow> a * b < 2147483648 \<Longrightarrow> mul32 a b = a * b"
  by (simp add: mul32_def wrap32_id)

lemma oledSetPosition_fields:
  "bus (oledSetPosition x y st) = bus st @
     [[0x00, word_of_int (0xb0 OR y)], [0x00, word_of_int (x AND 0xf)],
      [0x00, word_of_int (0x10 OR (drop_bit 4 x AND 0xf))]]"
  "iScreenOffset (oledSetPosition x y st) = add32 (mul32 y 128) x"
  "ucScreen (oledSetPosition x y st) = ucScreen st"
  "ucFont (oledSetPosition x y st) = ucFont st"
  "file_i2c (oledSetPosition x y st) = file_i2c st"
  by (simp_all add: oledSetPosition_def oledWriteCommand_def write_i2c_def Let_def)

lemma oledWriteDataBlock_Some:
  assumes "length buf \<le> 128" and "0 \<le> iScreenOffset st"
    and "nat (iScreenOffset st) + length buf \<le> length (ucScreen st)"
  shows "oledWriteDataBlock buf st =
     Some (st\<lparr>bus := bus st @ [0x40 # buf],
              ucScreen := take (nat (iScreenOffset st)) (ucScreen st) @ buf
                          @ drop (nat (iScreenOffset st) + length buf) (ucScreen st),
              iScreenOffset := add32 (iScreenOffset st) (int (length buf))\<rparr>)"
  using assms by (simp add: oledWriteDataBlock_def write_i2c_def memcpy_to_def Let_def)

lemma page_byte: "y < 8 \<Longrightarrow> (word_of_int (0xb0 OR int y) :: u8) = 0xb0 + of_nat y"
proof -
  assume "y < 8"
  then have "y \<in> {0, 1, 2, 3, 4, 5, 6, 7}" by auto
  then show ?thesis by auto
qed

lemma oledSetPosition_eq:
  "oledSetPosition x y st = st\<lparr>bus := bus st @
     [[0x00, word_of_int (0xb0 OR y)], [0x00, word_of_int (x AND 0xf)],
      [0x00, word_of_int (0x10 OR (drop_bit 4 x AND 0xf))]],
     iScreenOffset := add32 (mul32 y 128) x\<rparr>"
  by (simp add: oledSetPosition_def oledWriteCommand_def write_i2c_def Let_def)

lemma fill_page:
  assumes "k < 8" and "length scr0 = 1024"
    and "ucScreen s = replicate (k * 128) v @ drop (k * 128) scr0"
  shows "oledWriteDataBlock (replicate 128 v) (oledSetPosition 0 (int k) s) =
     Some (s\<lparr>bus := bus s @ [[0x00, 0xb0 + of_nat k], [0x00, 0x00], [0x00, 0x10],
                              0x40 # replicate 128 v],
             ucScreen := replicate (Suc k * 128) v @ drop (Suc k * 128) scr0,
             iScreenOffset := int (Suc k * 128)\<rparr>)"
proof -
  let ?p = "s\<lparr>bus := bus s @ [[0x00, 0xb0 + of_nat k], [0x00, 0x00], [0x00, 0x10]],
               iScreenOffset := int (k * 128)\<rparr>"
  have p: "oledSetPosition 0 (int k) s = ?p"
    using assms(1) by (simp add: oledSetPosition_eq add32_id mul32_id page_byte)
  have b: "length (replicate 128 v) \<le> 128" "0 \<le> iScreenOffset ?p"
    "nat (iScreenOffset ?p) + length (replicate 128 v) \<le> length (ucScreen ?p)"
    using assms by simp_all
  have scr: "take (k * 128) (ucScreen s) @ replicate 128 v
               @ drop (k * 128 + 128) (ucScreen s)
             = replicate (Suc k * 128) v @ drop (Suc k * 128) scr0"
    using assms by (simp add: replicate_add [symmetric] add.commute)
  have nxt: "add32 (int (k * 128)) 128 = int (Suc k * 128)"
    using assms(1) by (simp add: add32_id)
  have "oledWriteDataBlock (replicate 128 v) ?p =
     Some (s\<lparr>bus := bus s @ [[0x00, 0xb0 + of_nat k], [0x00, 0x00], [0x00, 0x10],
                              0x40 # replicate 128 v],
             ucScreen := replicate (Suc k * 128) v @ drop (Suc k * 128) scr0,
             iScreenOffset := int (Suc k * 128)\<rparr>)"
  proof -
    have natk: "nat (int k * 128) = k * 128" by (simp add: nat_mult_distrib)
    show ?thesis
      unfolding oledWriteDataBlock_Some [OF b] using scr nxt by (simp add: natk)
  qed
  then show ?thesis unfolding p .
qed

lemma oledFill_result:
  assumes "length (ucScreen st) = 1024"
  shows "oledFill v st =
     (if file_i2c st = 0 then Some (- 1, st)
      else Some (0, st\<lparr>bus := bus st @ concat (map (\<lambda>y.
                           [[0x00, 0xb0 + of_nat y], [0x00, 0x00], [0x00, 0x10],
                            0x40 # replicate 128 v]) [0..<8]),
                        ucScreen := replicate 1024 v,
                        iScreenOffset := 1024\<rparr>))"
proof (cases "file_i2c st = 0")
  case True
  then show ?thesis by (simp add: oledFill_def)
next
  case False
  let ?tr = "\<lambda>k. concat (map (\<lambda>y. [[0x00, 0xb0 + of_nat y], [0x00, 0x00], [0x00, 0x10],
                            0x40 # replicate 128 v]) [0..<k])"
  let ?P = "\<lambda>k s. bus s = bus st @ ?tr k
      \<and> ucScreen s = replicate (k * 128) v @ drop (k * 128) (ucScreen st)
      \<and> (0 < k \<longrightarrow> iScreenOffset s = int (k * 128))
      \<and> ucFont s = ucFont st \<and> file_i2c s = file_i2c st \<and> oled.more s = oled.more st"
  let ?body = "\<lambda>y s. oledWriteDataBlock (replicate 128 v) (oledSetPosition 0 (int y) s)"
  have "\<exists>s. for_loop [0..<8] ?body st = Some s \<and> ?P 8 s"
  proof (rule for_loop_invariant [where P = ?P])
    show "?P 0 st" by simp
  next
    fix k s assume k: "k < 8" and P: "?P k s"
    from P have scr: "ucScreen s = replicate (k * 128) v @ drop (k * 128) (ucScreen st)"
      by simp
    let ?s' = "s\<lparr>bus := bus s @ [[0x00, 0xb0 + of_nat k], [0x00, 0x00], [0x00, 0x10],
                              0x40 # replicate 128 v],
             ucScreen := replicate (Suc k * 128) v @ drop (Suc k * 128) (ucScreen st),
             iScreenOffset := int (Suc k * 128)\<rparr>"
    have q: "?P (Suc k) ?s'" using P by simp
    have b: "?body k s = Some ?s'" by (rule fill_page [OF k assms scr])
    show "\<exists>s'. ?body k s = Some s' \<and> ?P (Suc k) s'"
      by (rule exI [of _ ?s'], rule conjI [OF b q])
  qed
  then obtain s where l: "for_loop [0..<8] ?body st = Some s" and P: "?P 8 s"
    by (elim exE conjE) (rule that, assumption, intro conjI; assumption)
  from P assms have "s = st\<lparr>bus := bus st @ ?tr 8, ucScreen := replicate 1024 v,
                        iScreenOffset := 1024\<rparr>"
    by (intro oled.equality) simp_all
  moreover have "oledFill v st = Some (0, s)"
    using False by (simp only: oledFill_def l if_False bind.bind_lunit)
  ultimately show ?thesis using False by (simp only: if_False)
qed

lemma and7: "(y::int) AND 7 = y mod 8"
proof -
  have m: "mask 3 = (7::int)" by (simp add: mask_eq_exp_minus_1)
  have "y AND mask 3 = y mod 8"
    by (simp only: take_bit_eq_mask [symmetric] take_bit_eq_mod) simp
  then show ?thesis unfolding m .
qed

lemma shr3: "drop_bit 3 (y::int) = y div 8"
  by (simp add: drop_bit_eq_div)

lemma pixel_set_same: "k < 8 \<Longrightarrow> ((old AND NOT (push_bit k 1)) OR push_bit k 1 = old) = bit (old :: u8) k"
proof -
  assume k: "k < 8"
  have "(old AND NOT (push_bit k 1)) OR push_bit k 1 = set_bit k old"
    by (rule bit_eqI) (auto simp: bit_simps)
  then show ?thesis using k by (simp add: set_bit_eq_idem_iff)
qed

lemma pixel_clear_same: "(old AND NOT (push_bit k 1) = old) = (\<not> bit (old :: u8) k)"
  using bit_imp_le_length [of old k]
  by (simp only: unset_bit_eq_and_not [symmetric] unset_bit_eq_idem_iff) auto

lemma pixel_set_same_exp: "k < 8 \<Longrightarrow> ((old AND NOT (2 ^ k)) OR 2 ^ k = old) = bit (old :: u8) k"
  using pixel_set_same [of k old] by simp

lemma pixel_clear_same_exp: "(old AND NOT (2 ^ k) = old) = (\<not> bit (old :: u8) k)"
  using pixel_clear_same [of old k] by simp

lemma pixel_set_bit: "k < 8 \<Longrightarrow> bit ((old AND NOT (push_bit k 1)) OR push_bit k (1::u8)) k"
  by (simp add: bit_simps)

lemma pixel_clear_bit: "\<not> bit (old AND NOT (push_bit k (1::u8))) k"
  by (simp add: bit_simps)

lemma pixel_set_bit_exp: "k < 8 \<Longrightarrow> bit ((old AND NOT (2 ^ k)) OR 2 ^ k :: u8) k"
  using pixel_set_bit [of k old] by simp

lemma pixel_clear_bit_exp: "\<not> bit (old AND NOT (2 ^ k) :: u8) k"
  using pixel_clear_bit [of old k] by simp

lemma oledSetPixel_result:
  assumes "file_i2c st \<noteq> 0" and "length (ucScreen st) = 1024"
  shows "oledSetPixel x y c st =
     (let i = add32 (mul32 (drop_bit 3 y) 128) x in
      if i < 0 \<or> 1023 < i then Some (- 1, st)
      else let old = ucScreen st ! nat i;
               m = push_bit (nat (y AND 7)) 0x1;
               uc = (if c \<noteq> 0 then (old AND NOT m) OR m else old AND NOT m)
           in if uc = old then Some (0, st)
              else Some (0, st\<lparr>bus := bus st @
                     [[0x00, word_of_int (0xb0 OR drop_bit 3 y)],
                      [0x00, word_of_int (x AND 0xf)],
                      [0x00, word_of_int (0x10 OR (drop_bit 4 x AND 0xf))],
                      [0x40, uc]],
                   ucScreen := (ucScreen st)[nat i := uc],
                   iScreenOffset := add32 i 1\<rparr>))"
proof -
  define i where "i = add32 (mul32 (drop_bit 3 y) 128) x"
  show ?thesis
  proof (cases "i < 0 \<or> 1023 < i")
    case True
    then show ?thesis using assms(1) by (simp add: oledSetPixel_def i_def [symmetric] Let_def)
  next
    case False
    then have ir: "0 \<le> i" "nat i < 1024" by auto
    let ?old = "ucScreen st ! nat i"
    let ?m = "push_bit (nat (y AND 7)) 0x1 :: u8"
    let ?uc = "if c \<noteq> 0 then (?old AND NOT ?m) OR ?m else ?old AND NOT ?m"
    have r: "rd (ucScreen st) (nat i) = Some ?old"
      using ir assms(2) by (simp add: rd_def)
    let ?p = "oledSetPosition x (drop_bit 3 y) st"
    have w: "oledWriteDataBlock [u] ?p =
       Some (st\<lparr>bus := bus st @
                     [[0x00, word_of_int (0xb0 OR drop_bit 3 y)],
                      [0x00, word_of_int (x AND 0xf)],
                      [0x00, word_of_int (0x10 OR (drop_bit 4 x AND 0xf))],
                      [0x40, u]],
                   ucScreen := (ucScreen st)[nat i := u],
                   iScreenOffset := add32 i 1\<rparr>)" for u
    proof -
      have b: "length [u] \<le> 128" "0 \<le> iScreenOffset ?p"
        "nat (iScreenOffset ?p) + length [u] \<le> length (ucScreen ?p)"
        using ir assms(2) by (simp_all add: oledSetPosition_fields i_def [symmetric])
      have u: "take (nat i) (ucScreen st) @ u # drop (Suc (nat i)) (ucScreen st)
                 = (ucScreen st)[nat i := u]"
        using ir assms(2) by (simp add: upd_conv_take_nth_drop)
      show ?thesis
        unfolding oledWriteDataBlock_Some [OF b]
        using u by (simp add: oledSetPosition_eq i_def [symmetric])
    qed
    show ?thesis
      using False assms(1)
      by (simp add: oledSetPixel_def i_def [symmetric] Let_def r w)
  qed
qed

lemma div8_cases:
  obtains q r :: int where "y = 8 * q + r" "0 \<le> r" "r < 8" "y div 8 = q"
proof -
  have "y = 8 * (y div 8) + y mod 8" "0 \<le> y mod 8" "y mod 8 < 8" by simp_all
  then show ?thesis using that by blast
qed

lemma pixel_index:
  assumes "0 \<le> x" "x \<le> 127" "- (2 ^ 27) \<le> y" "y < 2 ^ 27"
  shows "add32 (mul32 (drop_bit 3 y) 128) x = y div 8 * 128 + x"
proof -
  have "- (2 ^ 24) \<le> y div 8" "y div 8 < 2 ^ 24" using assms(3,4) by simp_all
  then have m: "mul32 (y div 8) 128 = y div 8 * 128" by (simp add: mul32_id)
  show ?thesis unfolding shr3 m using assms(1,2) \<open>- (2 ^ 24) \<le> y div 8\<close> \<open>y div 8 < 2 ^ 24\<close>
    by (simp add: add32_id)
qed

text \<open>
  Claim C4, as the code has it. After initialisation and for \<open>x\<close>, \<open>y\<close> on the
  display, \<open>oledSetPixel\<close> returns 0; a second call with the same arguments returns 0
  and changes nothing; the cached bit then has the colour. When the cached bit had the
  colour already, the first call changes nothing either (no bus traffic at all);
  otherwise the first call sends the three positioning commands and one data
  transmission with the new byte.
\<close>

theorem oledSetPixel_twice:
  assumes "file_i2c st \<noteq> 0" and "length (ucScreen st) = 1024"
    and "0 \<le> x" "x \<le> 127" "0 \<le> y" "y \<le> 63"
  shows "\<exists>st1. oledSetPixel x y c st = Some (0, st1)
           \<and> oledSetPixel x y c st1 = Some (0, st1)
           \<and> bit (ucScreen st1 ! nat (y div 8 * 128 + x)) (nat (y mod 8)) = (c \<noteq> 0)
           \<and> (if bit (ucScreen st ! nat (y div 8 * 128 + x)) (nat (y mod 8)) = (c \<noteq> 0)
               then st1 = st
               else bus st1 = bus st @
                     [[0x00, word_of_int (0xb0 OR drop_bit 3 y)],
                      [0x00, word_of_int (x AND 0xf)],
                      [0x00, word_of_int (0x10 OR (drop_bit 4 x AND 0xf))],
                      [0x40, ucScreen st1 ! nat (y div 8 * 128 + x)]])"
proof -
  define n where "n = nat (y div 8 * 128 + x)"
  define k where "k = nat (y mod 8)"
  define m :: u8 where "m = 2 ^ k"
  define old where "old = ucScreen st ! n"
  define uc where "uc = (if c \<noteq> 0 then (old AND NOT m) OR m else old AND NOT m)"
  have i: "add32 (mul32 (drop_bit 3 y) 128) x = y div 8 * 128 + x"
    using assms(3-6) by (simp add: pixel_index)
  have ir: "0 \<le> y div 8 * 128 + x" "y div 8 * 128 + x \<le> 1023"
  proof -
    obtain q r where q: "y = 8 * q + r" "0 \<le> r" "r < 8" "y div 8 = q" by (rule div8_cases)
    have "0 \<le> q" "q \<le> 7" using assms(5,6) q(1,2,3) by linarith+
    then show "0 \<le> y div 8 * 128 + x" "y div 8 * 128 + x \<le> 1023"
      using assms(3,4) unfolding q(4) by linarith+
  qed
  have k8: "k < 8" unfolding k_def by simp
  have n1024: "n < 1024" using ir by (simp add: n_def)
  have same: "(uc = old) = (bit old k = (c \<noteq> 0))"
    using k8 by (simp add: uc_def m_def pixel_set_same_exp pixel_clear_same_exp)
  have ucbit: "bit uc k = (c \<noteq> 0)"
    using k8 by (simp add: uc_def m_def pixel_set_bit_exp pixel_clear_bit_exp)
  have again: "(if c \<noteq> 0 then (uc AND NOT m) OR m else uc AND NOT m) = uc"
    using k8 ucbit by (simp add: m_def pixel_set_same_exp pixel_clear_same_exp)
  let ?st1 = "st\<lparr>bus := bus st @
                     [[0x00, word_of_int (0xb0 OR drop_bit 3 y)],
                      [0x00, word_of_int (x AND 0xf)],
                      [0x00, word_of_int (0x10 OR (drop_bit 4 x AND 0xf))],
                      [0x40, uc]],
                   ucScreen := (ucScreen st)[n := uc],
                   iScreenOffset := add32 (y div 8 * 128 + x) 1\<rparr>"
  have first: "oledSetPixel x y c st = Some (0, if uc = old then st else ?st1)"
    unfolding oledSetPixel_result [OF assms(1,2)] i
    using ir by (simp add: Let_def and7 n_def k_def m_def old_def uc_def)
  show ?thesis
  proof (cases "uc = old")
    case True
    with first have f: "oledSetPixel x y c st = Some (0, st)" by simp
    from True same have b: "bit (ucScreen st ! n) k = (c \<noteq> 0)" by (simp add: old_def)
    show ?thesis
      by (rule exI [of _ st]) (use f b in \<open>simp add: n_def k_def\<close>)
  next
    case False
    with first have f: "oledSetPixel x y c st = Some (0, ?st1)" by simp
    have a1: "file_i2c ?st1 \<noteq> 0" "length (ucScreen ?st1) = 1024"
      using assms(1,2) by simp_all
    have new: "ucScreen ?st1 ! n = uc" using n1024 assms(2) by simp
    have second: "oledSetPixel x y c ?st1 = Some (0, ?st1)"
      unfolding oledSetPixel_result [OF a1] i
      using ir new again
      by (simp add: Let_def and7 n_def [symmetric] k_def [symmetric] m_def [symmetric]
            del: oled.simps)
    from False same have nb: "bit (ucScreen st ! n) k \<noteq> (c \<noteq> 0)" by (simp add: old_def)
    have c3: "bit (ucScreen ?st1 ! n) k = (c \<noteq> 0)" unfolding new by (rule ucbit)
    have c4: "bus ?st1 = bus st @
                     [[0x00, word_of_int (0xb0 OR drop_bit 3 y)],
                      [0x00, word_of_int (x AND 0xf)],
                      [0x00, word_of_int (0x10 OR (drop_bit 4 x AND 0xf))],
                      [0x40, ucScreen ?st1 ! n]]"
      unfolding new by simp
    show ?thesis
      unfolding n_def [symmetric] k_def [symmetric]
      apply (rule exI [of _ ?st1])
      apply (intro conjI)
         apply (rule f)
        apply (rule second)
       apply (rule c3)
      apply (simp only: nb if_False)
      apply (rule c4)
      done
  qed
qed

text \<open>
  Claim C2 says that \<open>oledSetPixel\<close> rejects every \<open>x\<close> above 127, and the guard
  is commented \<open>off the screen\<close> in the source. The code does not: the guard tests the
  index \<open>(y >> 3) * 128 + x\<close> alone. On the zeroed cache \<open>oledSetPixel(128, 0, 1)\<close>
  returns 0; it sends page 0 and column \<open>0x80\<close> to the display, yet stores the byte
  at the cache index 128, which is column 0 of page 1. A following
  \<open>oledSetPixel(0, 8, 1)\<close>, a pixel on the display, then finds its bit set in the cache,
  sends nothing and returns 0.
\<close>

theorem oledSetPixel_column_128:
  "oledSetPixel 128 0 1 ((power_on [])\<lparr>file_i2c := 3\<rparr>)
       = Some (0, (power_on [])\<lparr>file_i2c := 3,
                    bus := [[0x00, 0xb0], [0x00, 0x00], [0x00, 0x18], [0x40, 0x01]],
                    ucScreen := (replicate 1024 0)[128 := 0x01],
                    iScreenOffset := 129\<rparr>)
   \<and> oledSetPixel 0 8 1 ((power_on [])\<lparr>file_i2c := 3,
                    bus := [[0x00, 0xb0], [0x00, 0x00], [0x00, 0x18], [0x40, 0x01]],
                    ucScreen := (replicate 1024 0)[128 := 0x01],
                    iScreenOffset := 129\<rparr>)
       = Some (0, (power_on [])\<lparr>file_i2c := 3,
                    bus := [[0x00, 0xb0], [0x00, 0x00], [0x00, 0x18], [0x40, 0x01]],
                    ucScreen := (replicate 1024 0)[128 := 0x01],
                    iScreenOffset := 129\<rparr>)"
proof (intro conjI)
  have h: "file_i2c ((power_on [])\<lparr>file_i2c := 3\<rparr>) \<noteq> 0"
    "length (ucScreen ((power_on [])\<lparr>file_i2c := 3\<rparr>)) = 1024"
    by (simp_all add: power_on_def)
  have i: "add32 (mul32 (drop_bit 3 0) 128) 128 = 128" by (simp add: mul32_id add32_id)
  have j: "add32 128 1 = 129" by (simp add: add32_id)
  show "oledSetPixel 128 0 1 ((power_on [])\<lparr>file_i2c := 3\<rparr>)
       = Some (0, (power_on [])\<lparr>file_i2c := 3,
                    bus := [[0x00, 0xb0], [0x00, 0x00], [0x00, 0x18], [0x40, 0x01]],
                    ucScreen := (replicate 1024 0)[128 := 0x01],
                    iScreenOffset := 129\<rparr>)"
    unfolding oledSetPixel_result [OF h] i
    by (simp add: Let_def power_on_def j)
next
  let ?S1 = "(power_on [])\<lparr>file_i2c := 3,
                    bus := [[0x00, 0xb0], [0x00, 0x00], [0x00, 0x18], [0x40, 0x01]],
                    ucScreen := (replicate 1024 0)[128 := 0x01],
                    iScreenOffset := 129\<rparr>"
  have h: "file_i2c ?S1 \<noteq> 0" "length (ucScreen ?S1) = 1024" by simp_all
  have i: "add32 (mul32 (drop_bit 3 8) 128) 0 = 128"
    by (simp add: mul32_id add32_id drop_bit_eq_div)
  have o: "ucScreen ?S1 ! nat 128 = 0x01" by simp
  show "oledSetPixel 0 8 1 ?S1 = Some (0, ?S1)"
    unfolding oledSetPixel_result [OF h] i Let_def o by simp
qed

text \<open>
  The theorem at \<open>x = 5\<close>, \<open>y = 9\<close>, colour 1 on the zeroed cache.
\<close>

theorem oledSetPixel_twice_witness:
  "file_i2c ((power_on [])\<lparr>file_i2c := 3\<rparr>) \<noteq> 0
   \<and> length (ucScreen ((power_on [])\<lparr>file_i2c := 3\<rparr>)) = 1024
   \<and> (0 :: int) \<le> 5 \<and> (5 :: int) \<le> 127 \<and> (0 :: int) \<le> 9 \<and> (9 :: int) \<le> 63
   \<and> (\<exists>st1. oledSetPixel 5 9 1 ((power_on [])\<lparr>file_i2c := 3\<rparr>) = Some (0, st1)
          \<and> oledSetPixel 5 9 1 st1 = Some (0, st1)
          \<and> bit (ucScreen st1 ! 133) 1
          \<and> bus st1 = [[0x00, 0xb1], [0x00, 0x05], [0x00, 0x10], [0x40, ucScreen st1 ! 133]])"
proof -
  have h: "file_i2c ((power_on [])\<lparr>file_i2c := 3\<rparr>) \<noteq> 0"
    "length (ucScreen ((power_on [])\<lparr>file_i2c := 3\<rparr>)) = 1024"
    "(0 :: int) \<le> 5" "(5 :: int) \<le> 127" "(0 :: int) \<le> 9" "(9 :: int) \<le> 63"
    by (simp_all add: power_on_def)
  have n: "nat (9 div 8 * 128 + 5) = 133" "nat (9 mod 8) = 1" by simp_all
  have old: "\<not> bit (ucScreen ((power_on [])\<lparr>file_i2c := 3\<rparr>) ! 133) 1"
    by (simp add: power_on_def)
  have b: "bus ((power_on [])\<lparr>file_i2c := 3\<rparr>) = []" by (simp add: power_on_def)
  have w: "(word_of_int (0xb0 OR drop_bit 3 9) :: u8) = 0xb1" "(word_of_int (5 AND 0xf) :: u8) = 0x05"
    "(word_of_int (0x10 OR (drop_bit 4 5 AND 0xf)) :: u8) = 0x10"
    by (simp_all add: drop_bit_eq_div)
  from oledSetPixel_twice [OF h, of 1] show ?thesis
    unfolding n using old h by (simp add: b w)
qed

text \<open>
  Claim C4 as stated is false: clearing a pixel that is clear twice sends nothing, not
  one bus write.
\<close>

theorem oledSetPixel_twice_counterexample:
  "oledSetPixel 0 0 0 ((power_on [])\<lparr>file_i2c := 3\<rparr>) = Some (0, (power_on [])\<lparr>file_i2c := 3\<rparr>)
   \<and> length (bus (snd (the (oledSetPixel 0 0 0
          (snd (the (oledSetPixel 0 0 0 ((power_on [])\<lparr>file_i2c := 3\<rparr>)))))))) = 0"
proof -
  have h: "file_i2c ((power_on [])\<lparr>file_i2c := 3\<rparr>) \<noteq> 0"
    "length (ucScreen ((power_on [])\<lparr>file_i2c := 3\<rparr>)) = 1024"
    by (simp_all add: power_on_def)
  have i: "add32 (mul32 (drop_bit 3 0) 128) 0 = 0" by (simp add: mul32_id add32_id)
  have "oledSetPixel 0 0 0 ((power_on [])\<lparr>file_i2c := 3\<rparr>) = Some (0, (power_on [])\<lparr>file_i2c := 3\<rparr>)"
    unfolding oledSetPixel_result [OF h] i by (simp add: Let_def power_on_def)
  then show ?thesis by (simp add: power_on_def)
qed

section \<open>Initialisation and fill\<close>

text \<open>
  Claim C5. With the handle 0, \<open>oledFill\<close> returns -1 and changes nothing. Otherwise
  it returns 0; it has sent, for each page 0 to 7 in turn, the three commands that put
  the cursor at column 0 of the page and one data transmission of 128 times the byte;
  all 1024 bytes of the cache are the byte. So \<open>oledFill(0xff)\<close> followed by
  \<open>oledFill(0x00)\<close> leaves the cache all 0.
\<close>

theorem oledFill_postcondition:
  assumes "length (ucScreen st) = 1024"
  shows "oledFill v st =
     (if file_i2c st = 0 then Some (- 1, st)
      else Some (0, st\<lparr>bus := bus st @ concat (map (\<lambda>y.
                           [[0x00, 0xb0 + of_nat y], [0x00, 0x00], [0x00, 0x10],
                            0x40 # replicate 128 v]) [0..<8]),
                        ucScreen := replicate 1024 v,
                        iScreenOffset := 1024\<rparr>))
   \<and> oledFill 0xff st \<bind> (\<lambda>(r, s). oledFill 0x00 s) =
     (if file_i2c st = 0 then Some (- 1, st)
      else Some (0, st\<lparr>bus := bus st
                          @ concat (map (\<lambda>y.
                             [[0x00, 0xb0 + of_nat y], [0x00, 0x00], [0x00, 0x10],
                              0x40 # replicate 128 0xff]) [0..<8])
                          @ concat (map (\<lambda>y.
                             [[0x00, 0xb0 + of_nat y], [0x00, 0x00], [0x00, 0x10],
                              0x40 # replicate 128 0x00]) [0..<8]),
                        ucScreen := replicate 1024 0x00,
                        iScreenOffset := 1024\<rparr>))"
proof (intro conjI)
  show "oledFill v st =
     (if file_i2c st = 0 then Some (- 1, st)
      else Some (0, st\<lparr>bus := bus st @ concat (map (\<lambda>y.
                           [[0x00, 0xb0 + of_nat y], [0x00, 0x00], [0x00, 0x10],
                            0x40 # replicate 128 v]) [0..<8]),
                        ucScreen := replicate 1024 v,
                        iScreenOffset := 1024\<rparr>))"
    by (rule oledFill_result [OF assms])
next
  let ?T = "\<lambda>v :: u8. concat (map (\<lambda>y. [[0x00, 0xb0 + of_nat y], [0x00, 0x00], [0x00, 0x10],
                            0x40 # replicate 128 v]) [0..<8])"
  let ?s1 = "st\<lparr>bus := bus st @ ?T 0xff, ucScreen := replicate 1024 0xff, iScreenOffset := 1024\<rparr>"
  show "oledFill 0xff st \<bind> (\<lambda>(r, s). oledFill 0x00 s) =
     (if file_i2c st = 0 then Some (- 1, st)
      else Some (0, st\<lparr>bus := bus st @ ?T 0xff @ ?T 0x00,
                        ucScreen := replicate 1024 0x00,
                        iScreenOffset := 1024\<rparr>))"
  proof (cases "file_i2c st = 0")
    case True
    then show ?thesis by (simp add: oledFill_def)
  next
    case False
    have l1: "length (ucScreen ?s1) = 1024" by simp
    have f1: "oledFill 0xff st = Some (0, ?s1)"
      unfolding oledFill_result [OF assms] using False by (simp only: if_False)
    have f2: "oledFill 0x00 ?s1 = Some (0, ?s1\<lparr>bus := bus ?s1 @ ?T 0x00,
                        ucScreen := replicate 1024 0x00, iScreenOffset := 1024\<rparr>)"
      unfolding oledFill_result [OF l1] using False by simp
    show ?thesis unfolding f1 using False f2 by simp
  qed
qed

text \<open>
  The theorem for \<open>oledFill(0xff)\<close> on the zeroed cache with the handle 3.
\<close>

theorem oledFill_postcondition_witness:
  "length (ucScreen ((power_on [])\<lparr>file_i2c := 3\<rparr>)) = 1024
   \<and> fst (the (oledFill 0xff ((power_on [])\<lparr>file_i2c := 3\<rparr>))) = 0
   \<and> ucScreen (snd (the (oledFill 0xff ((power_on [])\<lparr>file_i2c := 3\<rparr>)))) = replicate 1024 0xff"
proof -
  have h: "length (ucScreen ((power_on [])\<lparr>file_i2c := 3\<rparr>)) = 1024"
    by (simp add: power_on_def)
  have i: "file_i2c ((power_on [])\<lparr>file_i2c := 3\<rparr>) \<noteq> 0" by simp
  let ?S = "(power_on [])\<lparr>file_i2c := 3\<rparr>"
  have f: "oledFill 0xff ?S = Some (0, ?S\<lparr>bus := bus ?S @ concat (map (\<lambda>y.
                           [[0x00, 0xb0 + of_nat y], [0x00, 0x00], [0x00, 0x10],
                            0x40 # replicate 128 0xff]) [0..<8]),
                        ucScreen := replicate 1024 0xff,
                        iScreenOffset := 1024\<rparr>)"
    using oledFill_postcondition [where v = "0xff", OF h, THEN conjunct1] i
    by (simp only: if_False)
  show ?thesis unfolding f using h by simp
qed

text \<open>
  Claim C7. When \<open>open\<close> or \<open>ioctl\<close> returns a negative value, \<open>oledInit\<close> returns
  -1, has sent nothing and leaves the handle 0. Otherwise it keeps the handle, sends
  the 24 bytes (0x00 and the 23 opcodes) as one transmission, replaces the font table
  by its rotation (one call of \<open>RotateFont90\<close> on the table as it was) and returns 0.
  The rotation returns whenever the table has the 17932 bytes it reads.
\<close>

theorem oledInit_burst:
  "oledInit e iAddr st =
     (if open_result e < 0 \<or> ioctl_result e (open_result e) iAddr < 0
      then Some (- 1, st\<lparr>file_i2c := 0\<rparr>)
      else map_option (\<lambda>f. (0, st\<lparr>file_i2c := open_result e,
              bus := bus st @ [[0x00, 0xAE, 0xA8, 0x3F, 0xD3, 0x00, 0x40, 0xA0, 0xA1, 0xC0, 0xC8,
                                0xDA, 0x12, 0x81, 0xFF, 0xA4, 0xA6, 0xD5, 0x80, 0x8D, 0x14,
                                0xAF, 0x20, 0x02]],
              ucFont := f\<rparr>))
            (RotateFont90 (ucFont st) (stack_bytes e)))
   \<and> (17932 \<le> length (ucFont st) \<and> length (stack_bytes e) = 64
        \<longrightarrow> RotateFont90 (ucFont st) (stack_bytes e) \<noteq> None)"
proof (intro conjI impI)
  show "oledInit e iAddr st =
     (if open_result e < 0 \<or> ioctl_result e (open_result e) iAddr < 0
      then Some (- 1, st\<lparr>file_i2c := 0\<rparr>)
      else map_option (\<lambda>f. (0, st\<lparr>file_i2c := open_result e,
              bus := bus st @ [[0x00, 0xAE, 0xA8, 0x3F, 0xD3, 0x00, 0x40, 0xA0, 0xA1, 0xC0, 0xC8,
                                0xDA, 0x12, 0x81, 0xFF, 0xA4, 0xA6, 0xD5, 0x80, 0x8D, 0x14,
                                0xAF, 0x20, 0x02]],
              ucFont := f\<rparr>))
            (RotateFont90 (ucFont st) (stack_bytes e)))"
    by (cases "RotateFont90 (ucFont st) (stack_bytes e)")
       (simp_all add: oledInit_def Let_def write_i2c_def initbuf_def)
next
  assume "17932 \<le> length (ucFont st) \<and> length (stack_bytes e) = 64"
  then have "17932 \<le> length (ucFont st)" "64 \<le> length (stack_bytes e)" by simp_all
  from RotateFont90_Some [OF this] show "RotateFont90 (ucFont st) (stack_bytes e) \<noteq> None"
    by auto
qed

text \<open>
  The theorem for a table of 17932 zero bytes, \<open>open\<close> returning 3 and \<open>ioctl\<close>
  returning 0.
\<close>

theorem oledInit_burst_witness:
  "17932 \<le> length (ucFont (power_on (replicate 17932 0)))
   \<and> length (stack_bytes \<lparr>open_result = 3, ioctl_result = (\<lambda>fd addr. 0),
                           stack_bytes = replicate 64 0\<rparr>) = 64
   \<and> (\<exists>f. oledInit \<lparr>open_result = 3, ioctl_result = (\<lambda>fd addr. 0), stack_bytes = replicate 64 0\<rparr>
               0x3c (power_on (replicate 17932 0))
            = Some (0, (power_on (replicate 17932 0))\<lparr>file_i2c := 3,
                 bus := [[0x00, 0xAE, 0xA8, 0x3F, 0xD3, 0x00, 0x40, 0xA0, 0xA1, 0xC0, 0xC8,
                          0xDA, 0x12, 0x81, 0xFF, 0xA4, 0xA6, 0xD5, 0x80, 0x8D, 0x14,
                          0xAF, 0x20, 0x02]],
                 ucFont := f\<rparr>))"
proof -
  let ?e = "\<lparr>open_result = 3, ioctl_result = (\<lambda>fd addr. 0 :: int), stack_bytes = replicate 64 (0 :: u8)\<rparr>"
  let ?st = "power_on (replicate 17932 0)"
  have h: "17932 \<le> length (ucFont ?st) \<and> length (stack_bytes ?e) = 64"
    by (simp add: power_on_def)
  have b: "bus ?st = []" by (simp add: power_on_def)
  from oledInit_burst [of ?e "0x3c" ?st] h
  have r: "RotateFont90 (ucFont ?st) (stack_bytes ?e) \<noteq> None" by blast
  then obtain f where f: "RotateFont90 (ucFont ?st) (stack_bytes ?e) = Some f" by blast
  have "oledInit ?e 0x3c ?st = Some (0, ?st\<lparr>file_i2c := 3,
                 bus := [[0x00, 0xAE, 0xA8, 0x3F, 0xD3, 0x00, 0x40, 0xA0, 0xA1, 0xC0, 0xC8,
                          0xDA, 0x12, 0x81, 0xFF, 0xA4, 0xA6, 0xD5, 0x80, 0x8D, 0x14,
                          0xAF, 0x20, 0x02]],
                 ucFont := f\<rparr>)"
    using oledInit_burst [of ?e "0x3c" ?st, THEN conjunct1] f by (simp add: b)
  with h show ?thesis by blast
qed

section \<open>Text\<close>

lemma oledWriteDataBlock_step:
  assumes "length buf \<le> 128" and "0 \<le> iScreenOffset s"
    and "nat (iScreenOffset s) + length buf \<le> length (ucScreen s)"
  shows "\<exists>s'. oledWriteDataBlock buf s = Some s'
           \<and> bus s' = bus s @ [0x40 # buf]
           \<and> iScreenOffset s' = add32 (iScreenOffset s) (int (length buf))
           \<and> length (ucScreen s') = length (ucScreen s)
           \<and> ucFont s' = ucFont s \<and> file_i2c s' = file_i2c s
           \<and> (\<forall>m<length (ucScreen s).
                 \<not> (nat (iScreenOffset s) \<le> m \<and> m < nat (iScreenOffset s) + length buf)
                 \<longrightarrow> ucScreen s' ! m = ucScreen s ! m)"
proof -
  let ?o = "nat (iScreenOffset s)"
  let ?scr = "take ?o (ucScreen s) @ buf @ drop (?o + length buf) (ucScreen s)"
  have l: "length ?scr = length (ucScreen s)" using assms(3) by simp
  have "?scr ! m = ucScreen s ! m"
    if "m < length (ucScreen s)" "\<not> (?o \<le> m \<and> m < ?o + length buf)" for m
    using that assms(3) by (auto simp: nth_append)
  with l show ?thesis unfolding oledWriteDataBlock_Some [OF assms] by simp
qed

lemma msg_at_in: "k < length msg \<Longrightarrow> msg_at msg k = Some (of_char (msg ! k))"
  by (simp add: msg_at_def)

lemma rd_block_in: "k + n \<le> length a \<Longrightarrow> rd_block a k n = Some (take n (drop k a))"
  by (simp add: rd_block_def)

lemma small_glyph_step:
  assumes "k < length msg" and "unat (of_char (msg ! k) :: u8) * 8 + 8 \<le> length (ucFont s)"
    and "0 \<le> iScreenOffset s" and "nat (iScreenOffset s) + 8 \<le> length (ucScreen s)"
  shows "\<exists>s'. small_glyph_body msg k s = Some s'
           \<and> bus s' = bus s @ [0x40 # take 8 (drop (unat (of_char (msg ! k) :: u8) * 8) (ucFont s))]
           \<and> iScreenOffset s' = add32 (iScreenOffset s) 8
           \<and> length (ucScreen s') = length (ucScreen s)
           \<and> ucFont s' = ucFont s \<and> file_i2c s' = file_i2c s
           \<and> (\<forall>m<length (ucScreen s).
                 \<not> (nat (iScreenOffset s) \<le> m \<and> m < nat (iScreenOffset s) + 8)
                 \<longrightarrow> ucScreen s' ! m = ucScreen s ! m)"
proof -
  let ?b = "take 8 (drop (unat (of_char (msg ! k) :: u8) * 8) (ucFont s))"
  have lb: "length ?b = 8" using assms(2) by simp
  have b: "length ?b \<le> 128" "0 \<le> iScreenOffset s"
    "nat (iScreenOffset s) + length ?b \<le> length (ucScreen s)"
    using assms(3,4) lb by simp_all
  from oledWriteDataBlock_step [OF b] show ?thesis
    unfolding lb small_glyph_body_def
    by (simp add: msg_at_in [OF assms(1)] rd_block_in [OF assms(2)])
qed

lemma unat_of_char: "unat (of_char c :: u8) = of_char c"
proof -
  have "(of_char c :: u8) = of_nat (of_char c)" by (simp add: of_nat_of_char)
  then have "unat (of_char c :: u8) = (of_char c :: nat) mod 256"
    by (simp only: unat_of_nat) simp
  then show ?thesis by simp
qed

lemma clamp_eq:
  assumes "0 \<le> x" and "x + int n < 2 ^ 31" and "0 \<le> cap" and "cap \<le> 16"
  shows "(if add32 (wrap32 (int n)) x > cap then sub32 cap x else wrap32 (int n))
           = min (int n) (cap - x)"
proof -
  have w: "wrap32 (int n) = int n" using assms(1,2) by (simp add: wrap32_id)
  have a: "add32 (int n) x = int n + x" using assms(1,2) by (simp add: add32_id)
  have s: "sub32 cap x = cap - x" using assms by (simp add: sub32_id)
  show ?thesis unfolding w a s by (simp add: min_def)
qed

lemma oledWriteString_small_fail:
  assumes "file_i2c st \<noteq> 0" and "0 \<le> x" and "x + int (length msg) < 2 ^ 31"
    and "min (int (length msg)) (16 - x) < 0"
  shows "oledWriteString x y msg 0 st = Some (- 1, oledSetPosition x y st)"
  using assms(1,4) clamp_eq [OF assms(2,3), of 16]
  by (simp add: oledWriteString_def Let_def)

lemma oledWriteString_small_ok:
  assumes init: "file_i2c st \<noteq> 0" and len: "length (ucScreen st) = 1024"
    and x0: "0 \<le> x" and nov: "x + int (length msg) < 2 ^ 31"
    and y: "0 \<le> y" "y \<le> 7"
    and font: "\<forall>c\<in>set msg. of_char c * 8 + 8 \<le> length (ucFont st)"
    and cl: "0 \<le> min (int (length msg)) (16 - x)"
  shows "\<exists>st'. oledWriteString x y msg 0 st = Some (0, st')
           \<and> bus st' = bus (oledSetPosition x y st)
                 @ map (\<lambda>k. 0x40 # take 8 (drop (of_char (msg ! k) * 8) (ucFont st)))
                     [0..<nat (min (int (length msg)) (16 - x))]
           \<and> length (ucScreen st') = 1024
           \<and> ucFont st' = ucFont st \<and> file_i2c st' = file_i2c st
           \<and> (\<forall>m<1024. m < nat y * 128 \<or> nat y * 128 + 128 \<le> m
                 \<longrightarrow> ucScreen st' ! m = ucScreen st ! m)"
proof -
  define n where "n = nat (min (int (length msg)) (16 - x))"
  let ?st1 = "oledSetPosition x y st"
  let ?F = "\<lambda>k. 0x40 # take 8 (drop (of_char (msg ! k) * 8) (ucFont st))"
  have x16: "x \<le> 16" using cl by simp
  have nle: "n \<le> length msg" "int n + x \<le> 16" using cl by (simp_all add: n_def)
  have off0: "iScreenOffset ?st1 = y * 128 + x"
    using y x0 x16 by (simp add: oledSetPosition_fields mul32_id add32_id)
  let ?P = "\<lambda>k s. bus s = bus ?st1 @ map ?F [0..<k]
      \<and> iScreenOffset s = y * 128 + x + 8 * int k
      \<and> length (ucScreen s) = 1024 \<and> ucFont s = ucFont st \<and> file_i2c s = file_i2c st
      \<and> (\<forall>m<1024. m < nat y * 128 \<or> nat y * 128 + 128 \<le> m
            \<longrightarrow> ucScreen s ! m = ucScreen st ! m)"
  have "\<exists>s. for_loop [0..<n] (small_glyph_body msg) ?st1 = Some s \<and> ?P n s"
  proof (rule for_loop_invariant [where P = ?P])
    show "?P 0 ?st1" using off0 len by (simp add: oledSetPosition_fields)
  next
    fix k and s :: oled assume k: "k < n" and P: "?P k s"
    from k nle have km: "k < length msg" by simp
    then have "msg ! k \<in> set msg" by simp
    with font P have f: "unat (of_char (msg ! k) :: u8) * 8 + 8 \<le> length (ucFont s)"
      by (simp add: unat_of_char)
    from P have o: "iScreenOffset s = y * 128 + x + 8 * int k" by simp
    have kb: "int k + 1 + x \<le> 16" using k nle(2) by simp
    have o0: "0 \<le> iScreenOffset s" unfolding o using y x0 by simp
    have no: "nat (iScreenOffset s) = nat y * 128 + nat x + 8 * k"
      unfolding o using y x0 by (simp add: nat_add_distrib nat_mult_distrib)
    have oe: "nat (iScreenOffset s) + 8 \<le> length (ucScreen s)"
      unfolding no using P y x0 kb by simp
    from small_glyph_step [OF km f o0 oe] obtain s'
      where b: "small_glyph_body msg k s = Some s'"
        and s1: "bus s' = bus s @ [?F k]"
        and s2: "iScreenOffset s' = add32 (iScreenOffset s) 8"
        and s3: "length (ucScreen s') = length (ucScreen s)"
        and s4: "ucFont s' = ucFont s" "file_i2c s' = file_i2c s"
        and s5: "\<And>m. m < length (ucScreen s) \<Longrightarrow>
                 \<not> (nat (iScreenOffset s) \<le> m \<and> m < nat (iScreenOffset s) + 8)
                 \<Longrightarrow> ucScreen s' ! m = ucScreen s ! m"
      using P by (auto simp: unat_of_char)
    have n2: "add32 (iScreenOffset s) 8 = y * 128 + x + 8 * int (Suc k)"
      unfolding o using y x0 kb by (simp add: add32_id)
    have fr: "ucScreen s' ! m = ucScreen st ! m"
      if "m < 1024" "m < nat y * 128 \<or> nat y * 128 + 128 \<le> m" for m
    proof -
      have "\<not> (nat (iScreenOffset s) \<le> m \<and> m < nat (iScreenOffset s) + 8)"
        unfolding no using that(2) x0 kb by linarith
      with s5 [of m] that P show ?thesis by simp
    qed
    have "?P (Suc k) s'"
      using s1 s2 s3 s4 n2 fr P by simp
    with b show "\<exists>s'. small_glyph_body msg k s = Some s' \<and> ?P (Suc k) s'" by blast
  qed
  then obtain s where l: "for_loop [0..<n] (small_glyph_body msg) ?st1 = Some s" and P: "?P n s"
    by blast
  have "oledWriteString x y msg 0 st = Some (0, s)"
    using init cl clamp_eq [OF x0 nov, of 16] l
    by (simp add: oledWriteString_def Let_def n_def)
  with P show ?thesis unfolding n_def by blast
qed

lemma block_at:
  fixes s :: oled
  assumes "length (ucScreen s) = 1024" and "0 \<le> p" "p \<le> 7" and "0 \<le> col"
    and "col + int (length buf) \<le> 128"
  shows "\<exists>s'. oledWriteDataBlock buf (oledSetPosition col p s) = Some s'
           \<and> bus s' = bus s @
                 [[0x00, word_of_int (0xb0 OR p)], [0x00, word_of_int (col AND 0xf)],
                  [0x00, word_of_int (0x10 OR (drop_bit 4 col AND 0xf))], 0x40 # buf]
           \<and> length (ucScreen s') = 1024
           \<and> ucFont s' = ucFont s \<and> file_i2c s' = file_i2c s
           \<and> (\<forall>m<1024. m < nat p * 128 \<or> nat p * 128 + 128 \<le> m
                 \<longrightarrow> ucScreen s' ! m = ucScreen s ! m)"
proof -
  let ?q = "oledSetPosition col p s"
  have o: "iScreenOffset ?q = p * 128 + col"
    using assms(2-5) by (simp add: oledSetPosition_fields mul32_id add32_id)
  have no: "nat (iScreenOffset ?q) = nat p * 128 + nat col"
    unfolding o using assms(2,4) by (simp add: nat_add_distrib nat_mult_distrib)
  have lb: "length buf \<le> 128" using assms(4,5) by simp
  have b0: "0 \<le> iScreenOffset ?q" unfolding o using assms(2,4) by simp
  have b1: "nat (iScreenOffset ?q) + length buf \<le> length (ucScreen ?q)"
    unfolding no using assms by (simp add: oledSetPosition_fields)
  note b = b0 b1
  from oledWriteDataBlock_step [OF lb b] obtain s'
    where w: "oledWriteDataBlock buf ?q = Some s'"
      and s1: "bus s' = bus ?q @ [0x40 # buf]"
      and s3: "length (ucScreen s') = length (ucScreen ?q)"
      and s4: "ucFont s' = ucFont ?q" "file_i2c s' = file_i2c ?q"
      and s5: "\<And>m. m < length (ucScreen ?q) \<Longrightarrow>
                 \<not> (nat (iScreenOffset ?q) \<le> m \<and> m < nat (iScreenOffset ?q) + length buf)
                 \<Longrightarrow> ucScreen s' ! m = ucScreen ?q ! m"
    by blast
  have fr: "ucScreen s' ! m = ucScreen s ! m"
    if "m < 1024" "m < nat p * 128 \<or> nat p * 128 + 128 \<le> m" for m
  proof -
    have "\<not> (nat (iScreenOffset ?q) \<le> m \<and> m < nat (iScreenOffset ?q) + length buf)"
      unfolding no using that(2) assms(4,5) by linarith
    with s5 [of m] that assms(1) show ?thesis by (simp add: oledSetPosition_fields)
  qed
  from w s1 s3 s4 fr assms(1) show ?thesis by (simp add: oledSetPosition_fields)
qed

lemma large_glyph_step:
  fixes s :: oled
  assumes km: "k < length msg"
    and font: "9728 + of_char (msg ! k) * 64 + 48 \<le> length (ucFont s)"
    and len: "length (ucScreen s) = 1024"
    and y: "0 \<le> y" "y \<le> 5" and x: "0 \<le> x" "x + int k \<le> 7"
  shows "\<exists>s'. large_glyph_body (x * 16) y msg k s = Some s'
           \<and> bus s' = bus s @
                [[0x00, word_of_int (0xb0 OR y)],
                 [0x00, word_of_int ((x * 16 + int k * 16) AND 0xf)],
                 [0x00, word_of_int (0x10 OR (drop_bit 4 (x * 16 + int k * 16) AND 0xf))],
                 0x40 # take 16 (drop (9728 + of_char (msg ! k) * 64) (ucFont s)),
                 [0x00, word_of_int (0xb0 OR (y + 1))],
                 [0x00, word_of_int ((x * 16 + int k * 16) AND 0xf)],
                 [0x00, word_of_int (0x10 OR (drop_bit 4 (x * 16 + int k * 16) AND 0xf))],
                 0x40 # take 16 (drop (9728 + of_char (msg ! k) * 64 + 16) (ucFont s)),
                 [0x00, word_of_int (0xb0 OR (y + 2))],
                 [0x00, word_of_int ((x * 16 + int k * 16) AND 0xf)],
                 [0x00, word_of_int (0x10 OR (drop_bit 4 (x * 16 + int k * 16) AND 0xf))],
                 0x40 # take 16 (drop (9728 + of_char (msg ! k) * 64 + 32) (ucFont s))]
           \<and> length (ucScreen s') = 1024
           \<and> ucFont s' = ucFont s \<and> file_i2c s' = file_i2c s
           \<and> (\<forall>m<1024. m < nat y * 128 \<or> nat y * 128 + 384 \<le> m
                 \<longrightarrow> ucScreen s' ! m = ucScreen s ! m)"
proof -
  let ?g = "9728 + of_char (msg ! k) * 64 :: nat"
  let ?col = "x * 16 + int k * 16"
  let ?b0 = "take 16 (drop ?g (ucFont s))"
  let ?b1 = "take 16 (drop (?g + 16) (ucFont s))"
  let ?b2 = "take 16 (drop (?g + 32) (ucFont s))"
  have col: "add32 (x * 16) (mul32 (int k) 16) = ?col"
    using x by (simp add: mul32_id add32_id)
  have y1: "add32 y 1 = y + 1" and y2: "add32 y 2 = y + 2"
    using y by (simp_all add: add32_id)
  have lb: "length ?b0 = 16" "length ?b1 = 16" "length ?b2 = 16" using font by simp_all
  have c0: "0 \<le> ?col" using x by simp
  have c1: "?col + int 16 \<le> 128" using x by simp
  have ny: "nat (y + 1) = nat y + 1" "nat (y + 2) = nat y + 2" using y by simp_all
  have r0: "rd_block (ucFont s) ?g 16 = Some ?b0" using font by (simp add: rd_block_def)
  from block_at [OF len y(1) _ c0, of ?b0] y c1 lb obtain s1 :: oled
    where w1: "oledWriteDataBlock ?b0 (oledSetPosition ?col y s) = Some s1"
      and b1: "bus s1 = bus s @
                 [[0x00, word_of_int (0xb0 OR y)], [0x00, word_of_int (?col AND 0xf)],
                  [0x00, word_of_int (0x10 OR (drop_bit 4 ?col AND 0xf))], 0x40 # ?b0]"
      and l1: "length (ucScreen s1) = 1024"
      and f1: "ucFont s1 = ucFont s" "file_i2c s1 = file_i2c s"
      and fr1: "\<And>m. m < 1024 \<Longrightarrow> m < nat y * 128 \<or> nat y * 128 + 128 \<le> m
                 \<Longrightarrow> ucScreen s1 ! m = ucScreen s ! m"
    by auto
  have r1: "rd_block (ucFont s1) (?g + 16) 16 = Some ?b1"
    using font f1 by (simp add: rd_block_def)
  have p1: "0 \<le> y + 1" "y + 1 \<le> 7" using y by simp_all
  from block_at [OF l1 p1 c0, of ?b1] c1 lb obtain s2 :: oled
    where w2: "oledWriteDataBlock ?b1 (oledSetPosition ?col (y + 1) s1) = Some s2"
      and b2: "bus s2 = bus s1 @
                 [[0x00, word_of_int (0xb0 OR (y + 1))], [0x00, word_of_int (?col AND 0xf)],
                  [0x00, word_of_int (0x10 OR (drop_bit 4 ?col AND 0xf))], 0x40 # ?b1]"
      and l2: "length (ucScreen s2) = 1024"
      and f2: "ucFont s2 = ucFont s1" "file_i2c s2 = file_i2c s1"
      and fr2: "\<And>m. m < 1024 \<Longrightarrow> m < nat (y + 1) * 128 \<or> nat (y + 1) * 128 + 128 \<le> m
                 \<Longrightarrow> ucScreen s2 ! m = ucScreen s1 ! m"
    by auto
  have r2: "rd_block (ucFont s2) (?g + 32) 16 = Some ?b2"
    using font f1 f2 by (simp add: rd_block_def)
  have p2: "0 \<le> y + 2" "y + 2 \<le> 7" using y by simp_all
  from block_at [OF l2 p2 c0, of ?b2] c1 lb obtain s3 :: oled
    where w3: "oledWriteDataBlock ?b2 (oledSetPosition ?col (y + 2) s2) = Some s3"
      and b3: "bus s3 = bus s2 @
                 [[0x00, word_of_int (0xb0 OR (y + 2))], [0x00, word_of_int (?col AND 0xf)],
                  [0x00, word_of_int (0x10 OR (drop_bit 4 ?col AND 0xf))], 0x40 # ?b2]"
      and l3: "length (ucScreen s3) = 1024"
      and f3: "ucFont s3 = ucFont s2" "file_i2c s3 = file_i2c s2"
      and fr3: "\<And>m. m < 1024 \<Longrightarrow> m < nat (y + 2) * 128 \<or> nat (y + 2) * 128 + 128 \<le> m
                 \<Longrightarrow> ucScreen s3 ! m = ucScreen s2 ! m"
    by auto
  have body: "large_glyph_body (x * 16) y msg k s = Some s3"
    unfolding large_glyph_body_def
    using r0 w1 r1 w2 r2 w3
    by (simp add: msg_at_in [OF km] unat_of_char Let_def col y1 y2)
  have fr: "ucScreen s3 ! m = ucScreen s ! m"
    if "m < 1024" "m < nat y * 128 \<or> nat y * 128 + 384 \<le> m" for m
  proof -
    from that(2) have "m < nat y * 128 \<or> nat y * 128 + 128 \<le> m"
      and "m < nat (y + 1) * 128 \<or> nat (y + 1) * 128 + 128 \<le> m"
      and "m < nat (y + 2) * 128 \<or> nat (y + 2) * 128 + 128 \<le> m"
      unfolding ny using that(2) by (simp_all add: algebra_simps) linarith+
    with fr1 [OF that(1)] fr2 [OF that(1)] fr3 [OF that(1)] show ?thesis by simp
  qed
  from body b1 b2 b3 l3 f1 f2 f3 fr show ?thesis by simp
qed

lemma oledWriteString_large_fail:
  assumes "file_i2c st \<noteq> 0" and "0 \<le> x" and "x + int (length msg) < 2 ^ 31"
    and "bLarge \<noteq> 0" and "min (int (length msg)) (8 - x) < 0"
  shows "oledWriteString x y msg bLarge st = Some (- 1, st)"
  using assms(1,4,5) clamp_eq [OF assms(2,3), of 8]
  by (simp add: oledWriteString_def Let_def)

lemma oledWriteString_large_ok:
  assumes init: "file_i2c st \<noteq> 0" and len: "length (ucScreen st) = 1024"
    and x0: "0 \<le> x" and nov: "x + int (length msg) < 2 ^ 31"
    and y: "0 \<le> y" "y \<le> 5"
    and font: "\<forall>c\<in>set msg. 9728 + of_char c * 64 + 48 \<le> length (ucFont st)"
    and large: "bLarge \<noteq> 0"
    and cl: "0 \<le> min (int (length msg)) (8 - x)"
  shows "\<exists>st'. oledWriteString x y msg bLarge st = Some (0, st')
           \<and> bus st' = bus st @ concat (map (\<lambda>k.
                [[0x00, word_of_int (0xb0 OR y)],
                 [0x00, word_of_int ((x * 16 + int k * 16) AND 0xf)],
                 [0x00, word_of_int (0x10 OR (drop_bit 4 (x * 16 + int k * 16) AND 0xf))],
                 0x40 # take 16 (drop (9728 + of_char (msg ! k) * 64) (ucFont st)),
                 [0x00, word_of_int (0xb0 OR (y + 1))],
                 [0x00, word_of_int ((x * 16 + int k * 16) AND 0xf)],
                 [0x00, word_of_int (0x10 OR (drop_bit 4 (x * 16 + int k * 16) AND 0xf))],
                 0x40 # take 16 (drop (9728 + of_char (msg ! k) * 64 + 16) (ucFont st)),
                 [0x00, word_of_int (0xb0 OR (y + 2))],
                 [0x00, word_of_int ((x * 16 + int k * 16) AND 0xf)],
                 [0x00, word_of_int (0x10 OR (drop_bit 4 (x * 16 + int k * 16) AND 0xf))],
                 0x40 # take 16 (drop (9728 + of_char (msg ! k) * 64 + 32) (ucFont st))])
              [0..<nat (min (int (length msg)) (8 - x))])
           \<and> length (ucScreen st') = 1024
           \<and> ucFont st' = ucFont st \<and> file_i2c st' = file_i2c st
           \<and> (\<forall>m<1024. m < nat y * 128 \<or> nat y * 128 + 384 \<le> m
                 \<longrightarrow> ucScreen st' ! m = ucScreen st ! m)"
proof -
  define n where "n = nat (min (int (length msg)) (8 - x))"
  let ?G = "\<lambda>k.
                [[0x00, word_of_int (0xb0 OR y)],
                 [0x00, word_of_int ((x * 16 + int k * 16) AND 0xf)],
                 [0x00, word_of_int (0x10 OR (drop_bit 4 (x * 16 + int k * 16) AND 0xf))],
                 0x40 # take 16 (drop (9728 + of_char (msg ! k) * 64) (ucFont st)),
                 [0x00, word_of_int (0xb0 OR (y + 1))],
                 [0x00, word_of_int ((x * 16 + int k * 16) AND 0xf)],
                 [0x00, word_of_int (0x10 OR (drop_bit 4 (x * 16 + int k * 16) AND 0xf))],
                 0x40 # take 16 (drop (9728 + of_char (msg ! k) * 64 + 16) (ucFont st)),
                 [0x00, word_of_int (0xb0 OR (y + 2))],
                 [0x00, word_of_int ((x * 16 + int k * 16) AND 0xf)],
                 [0x00, word_of_int (0x10 OR (drop_bit 4 (x * 16 + int k * 16) AND 0xf))],
                 0x40 # take 16 (drop (9728 + of_char (msg ! k) * 64 + 32) (ucFont st))
                   :: u8 list]"
  have x8: "x \<le> 8" using cl by simp
  have nle: "n \<le> length msg" "int n + x \<le> 8" using cl by (simp_all add: n_def)
  have xm: "mul32 x 16 = x * 16" using x0 x8 by (simp add: mul32_id)
  let ?P = "\<lambda>k (s :: oled). bus s = bus st @ concat (map ?G [0..<k])
      \<and> length (ucScreen s) = 1024 \<and> ucFont s = ucFont st \<and> file_i2c s = file_i2c st
      \<and> (\<forall>m<1024. m < nat y * 128 \<or> nat y * 128 + 384 \<le> m
            \<longrightarrow> ucScreen s ! m = ucScreen st ! m)"
  have "\<exists>s. for_loop [0..<n] (large_glyph_body (x * 16) y msg) st = Some s \<and> ?P n s"
  proof (rule for_loop_invariant [where P = ?P])
    show "?P 0 st" using len by simp
  next
    fix k and s :: oled assume k: "k < n" and P: "?P k s"
    from k nle have km: "k < length msg" by simp
    then have "msg ! k \<in> set msg" by simp
    with font P have f: "9728 + of_char (msg ! k) * 64 + 48 \<le> length (ucFont s)" by simp
    from P have ls: "length (ucScreen s) = 1024" by simp
    have xk: "x + int k \<le> 7" using k nle(2) by simp
    from large_glyph_step [OF km f ls y x0 xk] obtain s' :: oled
      where b: "large_glyph_body (x * 16) y msg k s = Some s'"
        and s1: "bus s' = bus s @ ?G k"
        and s3: "length (ucScreen s') = 1024"
        and s4: "ucFont s' = ucFont s" "file_i2c s' = file_i2c s"
        and s5: "\<And>m. m < 1024 \<Longrightarrow> m < nat y * 128 \<or> nat y * 128 + 384 \<le> m
                 \<Longrightarrow> ucScreen s' ! m = ucScreen s ! m"
      using P by auto
    have "?P (Suc k) s'" using s1 s3 s4 s5 P by simp
    with b show "\<exists>s'. large_glyph_body (x * 16) y msg k s = Some s' \<and> ?P (Suc k) s'"
      by blast
  qed
  then obtain s where l: "for_loop [0..<n] (large_glyph_body (x * 16) y msg) st = Some s"
    and P: "?P n s"
    by blast
  have "oledWriteString x y msg bLarge st = Some (0, s)"
    using init large cl clamp_eq [OF x0 nov, of 8] l
    by (simp add: oledWriteString_def Let_def n_def xm)
  with P show ?thesis unfolding n_def by blast
qed

text \<open>
  Claim C6. For an initialised driver and a call that stays within the arrays
  (\<open>x \<ge> 0\<close>, the pages \<open>y\<close> to \<open>y + 2\<close>, or \<open>y\<close> alone for the small font, on
  the display, the glyphs of the text within the font table, no \<open>int\<close> overflow in
  \<open>iLen + x\<close>): \<open>oledWriteString\<close> returns -1 exactly when the clamp
  \<open>min (len, 16 - x)\<close> (large font: \<open>min (len, 8 - x)\<close>) is negative, and 0 otherwise;
  the data transmissions it sends are those of the glyphs of the first \<open>clamp\<close>
  characters of the text, one of 8 bytes for a small glyph and three of 16 bytes for a
  large one, and none when the clamp is negative.
\<close>

theorem oledWriteString_truncation:
  assumes init: "file_i2c st \<noteq> 0" and len: "length (ucScreen st) = 1024"
    and x0: "0 \<le> x" and nov: "x + int (length msg) < 2 ^ 31"
    and safe: "if bLarge \<noteq> 0
               then 0 \<le> y \<and> y \<le> 5
                    \<and> (\<forall>c\<in>set msg. 9728 + of_char c * 64 + 48 \<le> length (ucFont st))
               else 0 \<le> y \<and> y \<le> 7
                    \<and> (\<forall>c\<in>set msg. of_char c * 8 + 8 \<le> length (ucFont st))"
  shows "\<exists>st'. oledWriteString x y msg bLarge st
             = Some (if min (int (length msg)) ((if bLarge \<noteq> 0 then 8 else 16) - x) < 0
                     then - 1 else 0, st')
           \<and> filter (\<lambda>b. take 1 b = [0x40]) (drop (length (bus st)) (bus st'))
             = (if bLarge \<noteq> 0
                then concat (map (\<lambda>k.
                       [0x40 # take 16 (drop (9728 + of_char (msg ! k) * 64) (ucFont st)),
                        0x40 # take 16 (drop (9728 + of_char (msg ! k) * 64 + 16) (ucFont st)),
                        0x40 # take 16 (drop (9728 + of_char (msg ! k) * 64 + 32) (ucFont st))])
                     [0..<nat (min (int (length msg)) (8 - x))])
                else map (\<lambda>k. 0x40 # take 8 (drop (of_char (msg ! k) * 8) (ucFont st)))
                     [0..<nat (min (int (length msg)) (16 - x))])"
proof (cases "bLarge \<noteq> 0")
  case large: True
  with safe have y: "0 \<le> y" "y \<le> 5"
    and font: "\<forall>c\<in>set msg. 9728 + of_char c * 64 + 48 \<le> length (ucFont st)" by simp_all
  show ?thesis
  proof (cases "min (int (length msg)) (8 - x) < 0")
    case True
    from oledWriteString_large_fail [OF init x0 nov large True, of y] True large
    show ?thesis by simp
  next
    case False
    then have cl: "0 \<le> min (int (length msg)) (8 - x)" by simp
    from oledWriteString_large_ok [OF init len x0 nov y font large cl] obtain st'
      where r: "oledWriteString x y msg bLarge st = Some (0, st')"
        and b: "bus st' = bus st @ concat (map (\<lambda>k.
                [[0x00, word_of_int (0xb0 OR y)],
                 [0x00, word_of_int ((x * 16 + int k * 16) AND 0xf)],
                 [0x00, word_of_int (0x10 OR (drop_bit 4 (x * 16 + int k * 16) AND 0xf))],
                 0x40 # take 16 (drop (9728 + of_char (msg ! k) * 64) (ucFont st)),
                 [0x00, word_of_int (0xb0 OR (y + 1))],
                 [0x00, word_of_int ((x * 16 + int k * 16) AND 0xf)],
                 [0x00, word_of_int (0x10 OR (drop_bit 4 (x * 16 + int k * 16) AND 0xf))],
                 0x40 # take 16 (drop (9728 + of_char (msg ! k) * 64 + 16) (ucFont st)),
                 [0x00, word_of_int (0xb0 OR (y + 2))],
                 [0x00, word_of_int ((x * 16 + int k * 16) AND 0xf)],
                 [0x00, word_of_int (0x10 OR (drop_bit 4 (x * 16 + int k * 16) AND 0xf))],
                 0x40 # take 16 (drop (9728 + of_char (msg ! k) * 64 + 32) (ucFont st))])
              [0..<nat (min (int (length msg)) (8 - x))])"
      by blast
    have "filter (\<lambda>b. take 1 b = [0x40]) (drop (length (bus st)) (bus st'))
        = concat (map (\<lambda>k.
                       [0x40 # take 16 (drop (9728 + of_char (msg ! k) * 64) (ucFont st)),
                        0x40 # take 16 (drop (9728 + of_char (msg ! k) * 64 + 16) (ucFont st)),
                        0x40 # take 16 (drop (9728 + of_char (msg ! k) * 64 + 32) (ucFont st))])
                     [0..<nat (min (int (length msg)) (8 - x))])"
      unfolding b by (simp add: filter_concat comp_def)
    with r False large show ?thesis by simp
  qed
next
  case small: False
  then have z: "bLarge = 0" by simp
  from small safe have y: "0 \<le> y" "y \<le> 7"
    and font: "\<forall>c\<in>set msg. of_char c * 8 + 8 \<le> length (ucFont st)" by simp_all
  show ?thesis
  proof (cases "min (int (length msg)) (16 - x) < 0")
    case True
    from oledWriteString_small_fail [OF init x0 nov True, of y] True
    show ?thesis unfolding z by (simp add: oledSetPosition_fields)
  next
    case False
    then have cl: "0 \<le> min (int (length msg)) (16 - x)" by simp
    from oledWriteString_small_ok [OF init len x0 nov y font cl] obtain st'
      where r: "oledWriteString x y msg 0 st = Some (0, st')"
        and b: "bus st' = bus (oledSetPosition x y st)
                 @ map (\<lambda>k. 0x40 # take 8 (drop (of_char (msg ! k) * 8) (ucFont st)))
                     [0..<nat (min (int (length msg)) (16 - x))]"
      by blast
    have "filter (\<lambda>b. take 1 b = [0x40]) (drop (length (bus st)) (bus st'))
        = map (\<lambda>k. 0x40 # take 8 (drop (of_char (msg ! k) * 8) (ucFont st)))
                     [0..<nat (min (int (length msg)) (16 - x))]"
      unfolding b by (simp add: oledSetPosition_fields filter_map comp_def)
    with r False show ?thesis unfolding z by simp
  qed
qed

text \<open>
  Claim C9. Under the same conditions the call returns: no copy into the cache leaves
  the 1024 bytes of \<open>ucScreen\<close>. Every cache byte outside the page \<open>y\<close> (small font)
  or the pages \<open>y\<close>, \<open>y + 1\<close>, \<open>y + 2\<close> (large font) keeps its value.
\<close>

theorem oledWriteString_cache_bounds:
  assumes init: "file_i2c st \<noteq> 0" and len: "length (ucScreen st) = 1024"
    and x0: "0 \<le> x" and nov: "x + int (length msg) < 2 ^ 31"
    and safe: "if bLarge \<noteq> 0
               then 0 \<le> y \<and> y \<le> 5
                    \<and> (\<forall>c\<in>set msg. 9728 + of_char c * 64 + 48 \<le> length (ucFont st))
               else 0 \<le> y \<and> y \<le> 7
                    \<and> (\<forall>c\<in>set msg. of_char c * 8 + 8 \<le> length (ucFont st))"
  shows "\<exists>r st'. oledWriteString x y msg bLarge st = Some (r, st')
           \<and> length (ucScreen st') = 1024
           \<and> (\<forall>m<1024. m < nat y * 128
                         \<or> nat y * 128 + (if bLarge \<noteq> 0 then 3 * 128 else 128) \<le> m
                 \<longrightarrow> ucScreen st' ! m = ucScreen st ! m)"
proof (cases "bLarge \<noteq> 0")
  case large: True
  with safe have y: "0 \<le> y" "y \<le> 5"
    and font: "\<forall>c\<in>set msg. 9728 + of_char c * 64 + 48 \<le> length (ucFont st)" by simp_all
  show ?thesis
  proof (cases "min (int (length msg)) (8 - x) < 0")
    case True
    from oledWriteString_large_fail [OF init x0 nov large True, of y] len
    show ?thesis by simp
  next
    case False
    then have cl: "0 \<le> min (int (length msg)) (8 - x)" by simp
    from oledWriteString_large_ok [OF init len x0 nov y font large cl] large
    show ?thesis by auto
  qed
next
  case small: False
  then have z: "bLarge = 0" by simp
  from small safe have y: "0 \<le> y" "y \<le> 7"
    and font: "\<forall>c\<in>set msg. of_char c * 8 + 8 \<le> length (ucFont st)" by simp_all
  show ?thesis
  proof (cases "min (int (length msg)) (16 - x) < 0")
    case True
    from oledWriteString_small_fail [OF init x0 nov True, of y] len
    show ?thesis unfolding z by (simp add: oledSetPosition_fields)
  next
    case False
    then have cl: "0 \<le> min (int (length msg)) (16 - x)" by simp
    from oledWriteString_small_ok [OF init len x0 nov y font cl]
    show ?thesis unfolding z by auto
  qed
qed

text \<open>
  Claim C10. A small-font call with \<open>x \<ge> 17\<close> returns -1 after the three
  positioning commands have been sent and \<open>iScreenOffset\<close> has become
  \<open>y * 128 + x\<close>; a large-font call with a negative clamp (\<open>x \<ge> 9\<close>) returns -1
  with the state as it was. (\<open>y * 128 + x\<close> is taken within the \<open>int\<close> range.)
\<close>

theorem oledWriteString_failure_paths:
  assumes init: "file_i2c st \<noteq> 0"
    and x: "(if bLarge \<noteq> 0 then 9 else 17) \<le> x"
    and nov: "x + int (length msg) < 2 ^ 31"
    and y: "- (2 ^ 31) \<le> y * 128" "y * 128 + x < 2 ^ 31"
  shows "oledWriteString x y msg bLarge st =
     Some (- 1, if bLarge \<noteq> 0 then st
                else st\<lparr>bus := bus st @
                            [[0x00, word_of_int (0xb0 OR y)],
                             [0x00, word_of_int (x AND 0xf)],
                             [0x00, word_of_int (0x10 OR (drop_bit 4 x AND 0xf))]],
                        iScreenOffset := y * 128 + x\<rparr>)"
proof (cases "bLarge \<noteq> 0")
  case True
  with x have x9: "9 \<le> x" by simp
  then have x0: "0 \<le> x" and cl: "min (int (length msg)) (8 - x) < 0" by simp_all
  from oledWriteString_large_fail [OF init x0 nov True cl] True show ?thesis by simp
next
  case False
  then have z: "bLarge = 0" by simp
  from False x have x17: "17 \<le> x" by simp
  then have x0: "0 \<le> x" and cl: "min (int (length msg)) (16 - x) < 0" by simp_all
  have m: "mul32 y 128 = y * 128" using y x0 by (simp add: mul32_id)
  have a: "add32 (y * 128) x = y * 128 + x" using y x0 by (simp add: add32_id)
  from oledWriteString_small_fail [OF init x0 nov cl, of y]
  show ?thesis unfolding z by (simp add: oledSetPosition_eq m a)
qed

text \<open>
  The theorem for the text \<open>Hi\<close> at column 15 in the small font: one glyph, that of
  \<open>H\<close>, is sent.
\<close>

theorem oledWriteString_truncation_witness:
  "file_i2c ((power_on (replicate 17920 0))\<lparr>file_i2c := 3\<rparr>) \<noteq> 0
   \<and> length (ucScreen ((power_on (replicate 17920 0))\<lparr>file_i2c := 3\<rparr>)) = 1024
   \<and> (0 :: int) \<le> 15 \<and> 15 + int (length ''Hi'') < 2 ^ 31
   \<and> (0 :: int) \<le> 0 \<and> (0 :: int) \<le> 7
   \<and> of_char CHR ''H'' * 8 + 8
         \<le> length (ucFont ((power_on (replicate 17920 0))\<lparr>file_i2c := 3\<rparr>))
   \<and> of_char CHR ''i'' * 8 + 8
         \<le> length (ucFont ((power_on (replicate 17920 0))\<lparr>file_i2c := 3\<rparr>))
   \<and> (\<exists>st'. oledWriteString 15 0 ''Hi'' 0 ((power_on (replicate 17920 0))\<lparr>file_i2c := 3\<rparr>)
                = Some (0, st')
          \<and> filter (\<lambda>b. take 1 b = [0x40])
               (drop (length (bus ((power_on (replicate 17920 0))\<lparr>file_i2c := 3\<rparr>))) (bus st'))
              = [0x40 # replicate 8 0])"
proof -
  let ?S = "(power_on (replicate 17920 0))\<lparr>file_i2c := 3\<rparr>"
  have h: "file_i2c ?S \<noteq> 0" "length (ucScreen ?S) = 1024"
    "(0 :: int) \<le> 15" "15 + int (length ''Hi'') < 2 ^ 31"
    by (simp_all add: power_on_def)
  have g: "of_char CHR ''H'' * 8 + 8 \<le> length (ucFont ?S)"
    "of_char CHR ''i'' * 8 + 8 \<le> length (ucFont ?S)"
    by (simp_all add: power_on_def)
  then have f: "\<forall>c\<in>set ''Hi''. of_char c * 8 + 8 \<le> length (ucFont ?S)"
    by simp
  have t: "(0 :: int) \<le> 0" "(0 :: int) \<le> 7" by simp_all
  from f have s: "if (0 :: int) \<noteq> 0
               then (0 :: int) \<le> 0 \<and> (0 :: int) \<le> 5
                    \<and> (\<forall>c\<in>set ''Hi''. 9728 + of_char c * 64 + 48 \<le> length (ucFont ?S))
               else (0 :: int) \<le> 0 \<and> (0 :: int) \<le> 7
                    \<and> (\<forall>c\<in>set ''Hi''. of_char c * 8 + 8 \<le> length (ucFont ?S))"
    by simp
  from oledWriteString_truncation [OF h s] obtain st'
    where r: "oledWriteString 15 0 ''Hi'' 0 ?S = Some (0, st')"
      and d: "filter (\<lambda>b. take 1 b = [0x40]) (drop (length (bus ?S)) (bus st'))
               = map (\<lambda>k. 0x40 # take 8 (drop (of_char (''Hi'' ! k) * 8) (ucFont ?S)))
                   [0..<nat (min (int (length ''Hi'')) (16 - 15))]"
    by auto
  have "filter (\<lambda>b. take 1 b = [0x40]) (drop (length (bus ?S)) (bus st'))
          = [0x40 # replicate 8 0]"
    unfolding d by (simp add: power_on_def)
  with r h g t show ?thesis by blast
qed

text \<open>
  The theorem for the text \<open>Hi\<close> at cell 7 of page 5 in the large font: the last byte
  of page 4 is untouched.
\<close>

theorem oledWriteString_cache_bounds_witness:
  "file_i2c ((power_on (replicate 17920 0))\<lparr>file_i2c := 3\<rparr>) \<noteq> 0
   \<and> length (ucScreen ((power_on (replicate 17920 0))\<lparr>file_i2c := 3\<rparr>)) = 1024
   \<and> (0 :: int) \<le> 7 \<and> 7 + int (length ''Hi'') < 2 ^ 31
   \<and> (0 :: int) \<le> 5 \<and> (5 :: int) \<le> 5
   \<and> 9728 + of_char CHR ''H'' * 64 + 48
         \<le> length (ucFont ((power_on (replicate 17920 0))\<lparr>file_i2c := 3\<rparr>))
   \<and> 9728 + of_char CHR ''i'' * 64 + 48
         \<le> length (ucFont ((power_on (replicate 17920 0))\<lparr>file_i2c := 3\<rparr>))
   \<and> (\<exists>r st'. oledWriteString 7 5 ''Hi'' 1 ((power_on (replicate 17920 0))\<lparr>file_i2c := 3\<rparr>)
                = Some (r, st')
          \<and> length (ucScreen st') = 1024 \<and> ucScreen st' ! 639 = 0)"
proof -
  let ?S = "(power_on (replicate 17920 0))\<lparr>file_i2c := 3\<rparr>"
  have h: "file_i2c ?S \<noteq> 0" "length (ucScreen ?S) = 1024"
    "(0 :: int) \<le> 7" "7 + int (length ''Hi'') < 2 ^ 31"
    by (simp_all add: power_on_def)
  have g: "9728 + of_char CHR ''H'' * 64 + 48 \<le> length (ucFont ?S)"
    "9728 + of_char CHR ''i'' * 64 + 48 \<le> length (ucFont ?S)"
    by (simp_all add: power_on_def)
  then have f: "\<forall>c\<in>set ''Hi''. 9728 + of_char c * 64 + 48 \<le> length (ucFont ?S)"
    by simp
  then have s: "if (1 :: int) \<noteq> 0
               then (0 :: int) \<le> 5 \<and> (5 :: int) \<le> 5
                    \<and> (\<forall>c\<in>set ''Hi''. 9728 + of_char c * 64 + 48 \<le> length (ucFont ?S))
               else (0 :: int) \<le> 5 \<and> (5 :: int) \<le> 7
                    \<and> (\<forall>c\<in>set ''Hi''. of_char c * 8 + 8 \<le> length (ucFont ?S))"
    by simp
  from oledWriteString_cache_bounds [OF h s] obtain r st'
    where r: "oledWriteString 7 5 ''Hi'' 1 ?S = Some (r, st')"
      and l: "length (ucScreen st') = 1024"
      and fr: "\<forall>m<1024. m < nat 5 * 128 \<or> nat 5 * 128 + (if (1 :: int) \<noteq> 0 then 3 * 128 else 128) \<le> m
                 \<longrightarrow> ucScreen st' ! m = ucScreen ?S ! m"
    by blast
  from fr have "ucScreen st' ! 639 = ucScreen ?S ! 639" by simp
  then have "ucScreen st' ! 639 = 0" by (simp add: power_on_def)
  moreover have "(0 :: int) \<le> 5" "(5 :: int) \<le> 5" by simp_all
  ultimately show ?thesis using r l h g by blast
qed

text \<open>
  The theorem at \<open>x = 17\<close>, \<open>y = 2\<close> in the small font and at \<open>x = 9\<close> in the
  large font.
\<close>

theorem oledWriteString_failure_paths_witness:
  "file_i2c ((power_on [])\<lparr>file_i2c := 3\<rparr>) \<noteq> 0
   \<and> (17 :: int) \<le> 17 \<and> 17 + int (length ''A'') < 2 ^ 31
   \<and> - (2 ^ 31) \<le> (2 :: int) * 128 \<and> (2 :: int) * 128 + 17 < 2 ^ 31
   \<and> oledWriteString 17 2 ''A'' 0 ((power_on [])\<lparr>file_i2c := 3\<rparr>)
       = Some (- 1, (power_on [])\<lparr>file_i2c := 3,
                      bus := [[0x00, 0xb2], [0x00, 0x01], [0x00, 0x11]],
                      iScreenOffset := 273\<rparr>)
   \<and> (9 :: int) \<le> 9
   \<and> oledWriteString 9 2 ''A'' 1 ((power_on [])\<lparr>file_i2c := 3\<rparr>)
       = Some (- 1, (power_on [])\<lparr>file_i2c := 3\<rparr>)"
proof -
  let ?S = "(power_on [])\<lparr>file_i2c := 3\<rparr>"
  have i: "file_i2c ?S \<noteq> 0" by simp
  have a: "(if (0 :: int) \<noteq> 0 then 9 else 17) \<le> (17 :: int)" "17 + int (length ''A'') < 2 ^ 31"
    "- (2 ^ 31) \<le> (2 :: int) * 128" "(2 :: int) * 128 + 17 < 2 ^ 31" by simp_all
  have b: "(if (1 :: int) \<noteq> 0 then 9 else 17) \<le> (9 :: int)" "9 + int (length ''A'') < 2 ^ 31"
    "- (2 ^ 31) \<le> (2 :: int) * 128" "(2 :: int) * 128 + 9 < 2 ^ 31" by simp_all
  have w: "(word_of_int (0xb0 OR 2) :: u8) = 0xb2" "(word_of_int (17 AND 0xf) :: u8) = 0x01"
    "(word_of_int (0x10 OR (drop_bit 4 17 AND 0xf)) :: u8) = 0x11"
    by (simp_all add: drop_bit_eq_div)
  have "oledWriteString 17 2 ''A'' 0 ?S
       = Some (- 1, ?S\<lparr>bus := [[0x00, 0xb2], [0x00, 0x01], [0x00, 0x11]], iScreenOffset := 273\<rparr>)"
    unfolding oledWriteString_failure_paths [OF i a] by (simp add: w power_on_def)
  moreover have "oledWriteString 9 2 ''A'' 1 ?S = Some (- 1, ?S)"
    unfolding oledWriteString_failure_paths [OF i b] by simp
  ultimately show ?thesis using i by simp
qed

text \<open>
  For the large font the bound \<open>y \<le> 5\<close> is needed: at \<open>y = 6\<close> the third block of
  the first glyph is copied to the cache index 1024.
\<close>

lemma oledWriteString_large_page_6:
  "oledWriteString 0 6 ''A'' 1 ((power_on (replicate 17920 0))\<lparr>file_i2c := 3\<rparr>) = None"
  by (simp add: oledWriteString_def large_glyph_body_def oledWriteDataBlock_def
        oledSetPosition_eq write_i2c_def memcpy_to_def rd_block_def msg_at_def power_on_def
        Let_def wrap32_def add32_def sub32_def mul32_def)


end
